theory Spec2Isabelle
  imports Complex_Main "HOL-Library.Multiset"
begin

section \<open>Synthetic AB magnitudes of brown-dwarf model spectra\<close>

text \<open>
  A shallow embedding of the three functions of the notebook \<^verbatim>\<open>BD magnitudes.ipynb\<close>:
  \<^verbatim>\<open>load_model\<close>, \<^verbatim>\<open>load_filter\<close> and \<^verbatim>\<open>get_abs_mag\<close>, together with the library
  routines they call (\<^verbatim>\<open>astropy.io.ascii.read\<close>, the unit conversions of \<^verbatim>\<open>astropy.units\<close>,
  \<^verbatim>\<open>numpy.interp\<close>, \<^verbatim>\<open>numpy.argsort\<close>, \<^verbatim>\<open>scipy.integrate.simps\<close>, \<^verbatim>\<open>numpy.log10\<close>).

  Numbers are exact reals: rounding, overflow and underflow of IEEE doubles are not
  modelled. numpy raises nothing on a zero divisor or on the logarithm of a non-positive
  number; it produces an infinity or a NaN and carries on. The model marks such a run
  with the outcome \<open>NonFinite\<close> at the first operation whose result is not a finite number
  and does not follow the run further.
\<close>

subsection \<open>Outcomes\<close>

datatype error =
    FileNotFoundError
  | InconsistentTableError
  | KeyError string
  | ValueError
  | IndexError

datatype 'a outcome = Raise error | NonFinite | Value 'a

fun obind :: "'a outcome \<Rightarrow> ('a \<Rightarrow> 'b outcome) \<Rightarrow> 'b outcome" where
  "obind (Raise e) f = Raise e"
| "obind NonFinite f = NonFinite"
| "obind (Value v) f = f v"

text \<open>An array of element results is an array when every element is a finite number.\<close>

fun collect :: "'a outcome list \<Rightarrow> 'a list outcome" where
  "collect [] = Value []"
| "collect (r # rs) = obind r (\<lambda>v. obind (collect rs) (\<lambda>vs. Value (v # vs)))"

text \<open>Division of doubles: a zero divisor gives an infinity or a NaN.\<close>

definition fdiv :: "real \<Rightarrow> real \<Rightarrow> real outcome" where
  "fdiv a b = (if b = 0 then NonFinite else Value (a / b))"

text \<open>\<^verbatim>\<open>numpy.log10\<close>: minus infinity at zero, NaN below.\<close>

definition log10 :: "real \<Rightarrow> real outcome" where
  "log10 x = (if x \<le> 0 then NonFinite else Value (log 10 x))"

subsection \<open>Tables read from files\<close>

text \<open>
  A table is held column by column, each column with its name, in file order.
  A file is what \<^verbatim>\<open>ascii.read\<close> finds at a path: nothing, text that is no table, or
  the columns of a table. A table whose columns differ in length stands for a file
  whose rows differ in their number of entries, which the reader refuses.
\<close>

type_synonym table = "(string \<times> real list) list"

datatype ascii_file = Missing | Malformed | Tabular table

fun ragged :: "table \<Rightarrow> bool" where
  "ragged [] = False"
| "ragged ((n, c) # t) = (\<exists>d \<in> set (map snd t). length d \<noteq> length c)"

text \<open>
  \<^verbatim>\<open>ascii.read(path)\<close> and \<^verbatim>\<open>ascii.read(path, names=[...])\<close>: with \<^verbatim>\<open>names\<close> the columns
  are renamed in order, and a table with another number of columns is refused.
\<close>

definition ascii_read :: "ascii_file \<Rightarrow> string list option \<Rightarrow> table outcome" where
  "ascii_read f names =
     (case f of
        Missing \<Rightarrow> Raise FileNotFoundError
      | Malformed \<Rightarrow> Raise InconsistentTableError
      | Tabular t \<Rightarrow>
          if ragged t then Raise InconsistentTableError
          else (case names of
                  None \<Rightarrow> Value t
                | Some ns \<Rightarrow>
                    if length ns \<noteq> length t then Raise InconsistentTableError
                    else Value (zip ns (map snd t))))"

text \<open>\<^verbatim>\<open>table[name]\<close>: the column of that name, \<^verbatim>\<open>KeyError\<close> when there is none.\<close>

definition getitem :: "table \<Rightarrow> string \<Rightarrow> real list outcome" where
  "getitem t name = (case map_of t name of None \<Rightarrow> Raise (KeyError name) | Some c \<Rightarrow> Value c)"

subsection \<open>Units\<close>

text \<open>
  A unit is its size in CGS base units; every conversion of the notebook is between
  units of one dimension, or goes through one of the two spectral equivalencies below.
\<close>

definition micron :: real where "micron = 1 / 10 ^ 4"
definition angstrom :: real where "angstrom = 1 / 10 ^ 8"
definition metre :: real where "metre = 100"
definition Hz :: real where "Hz = 1"
definition erg_s_cm2_Hz :: real where "erg_s_cm2_Hz = 1"
definition Jansky :: real where "Jansky = 1 / 10 ^ 23"
definition milliJansky :: real where "milliJansky = 1 / 10 ^ 26"

text \<open>\<^verbatim>\<open>(values * from).to(to)\<close>: every value times the ratio of the two units.\<close>

definition to_unit :: "real \<Rightarrow> real \<Rightarrow> real list \<Rightarrow> real list" where
  "to_unit u_from u_to vs = map (\<lambda>v. v * (u_from / u_to)) vs"

text \<open>The speed of light, in metres per second and in angstrom per second.\<close>

definition c_m_s :: real where "c_m_s = 299792458"
definition c_AA_s :: real where "c_AA_s = 299792458 * 10 ^ 10"

text \<open>
  \<^verbatim>\<open>wvln.to(u.Hz, u.spectral())\<close> for wavelengths in angstrom: the wavelength in metres,
  then the speed of light divided by it.
\<close>

definition spectral_AA_to_Hz :: "real list \<Rightarrow> real list outcome" where
  "spectral_AA_to_Hz wvln = collect (map (\<lambda>w. fdiv c_m_s (w * (angstrom / metre))) wvln)"

text \<open>
  The inverse direction of the same equivalency, \<^verbatim>\<open>nu.to(u.angstrom, u.spectral())\<close>:
  the speed of light divided by the frequency is the wavelength in metres.
\<close>

definition spectral_Hz_to_AA :: "real list \<Rightarrow> real list outcome" where
  "spectral_Hz_to_AA nu =
     obind (collect (map (\<lambda>n. fdiv c_m_s n) nu)) (\<lambda>ms. Value (to_unit metre angstrom ms))"

text \<open>
  \<^verbatim>\<open>fnu.to(u.erg/u.s/u.cm**2/u.Angstrom, u.spectral_density(wvln))\<close>: each flux density
  divided by the square of the wavelength of its own sample (in angstrom) over the speed
  of light (in angstrom per second).
\<close>

definition spectral_density_fnu_to_flam :: "real list \<Rightarrow> real list \<Rightarrow> real list outcome" where
  "spectral_density_fnu_to_flam wvln fnu =
     collect (map (\<lambda>(w, f). fdiv f (w ^ 2 / c_AA_s)) (zip wvln fnu))"

text \<open>A scalar quantity: a number and its unit.\<close>

record quantity =
  qvalue :: real
  qunit :: real

definition qdiv :: "quantity \<Rightarrow> quantity \<Rightarrow> quantity outcome" where
  "qdiv a b =
     obind (fdiv (qvalue a) (qvalue b)) (\<lambda>v. Value \<lparr>qvalue = v, qunit = qunit a / qunit b\<rparr>)"

text \<open>
  \<^verbatim>\<open>np.log10\<close> of a quantity: the quantity is first expressed as a pure number, its value
  times the size of its (dimensionless) unit.
\<close>

definition qlog10 :: "quantity \<Rightarrow> real outcome" where
  "qlog10 q = log10 (qvalue q * qunit q)"

subsection \<open>The loaders\<close>

definition load_model :: "ascii_file \<Rightarrow> bool \<Rightarrow> (real list \<times> real list) outcome" where
  "load_model model_spec_file lambda' =
     obind (ascii_read model_spec_file None) (\<lambda>model_spec.
     obind (getitem model_spec ''LAMBDA(mic)'') (\<lambda>lam.
       let model_wvln = to_unit micron angstrom lam in
     obind (spectral_AA_to_Hz model_wvln) (\<lambda>model_nu.
     obind (getitem model_spec ''FDET(milliJ)'') (\<lambda>fdet.
       let model_fnu = to_unit milliJansky erg_s_cm2_Hz fdet in
       if lambda'
       then obind (spectral_density_fnu_to_flam model_wvln model_fnu)
              (\<lambda>model_flam. Value (model_wvln, model_flam))
       else Value (model_nu, model_fnu)))))"

definition load_filter :: "ascii_file \<Rightarrow> bool \<Rightarrow> (real list \<times> real list) outcome" where
  "load_filter filter_file lambda' =
     obind (ascii_read filter_file (Some [''wavelength'', ''response''])) (\<lambda>filter_tab.
     obind (getitem filter_tab ''wavelength'') (\<lambda>filter_wvln.
     obind (spectral_AA_to_Hz filter_wvln) (\<lambda>filter_nu.
     obind (getitem filter_tab ''response'') (\<lambda>filter_resp.
       if lambda' then Value (filter_wvln, filter_resp)
       else Value (filter_nu, filter_resp)))))"

subsection \<open>\<^verbatim>\<open>numpy.interp\<close>\<close>

text \<open>
  The search of numpy's \<^verbatim>\<open>arr_interp\<close> (\<^verbatim>\<open>compiled_base.c\<close>), which numpy documents for
  increasing sample points only and which never checks that they are:
  \<^verbatim>\<open>linear_search\<close> walks up from \<open>i0\<close> while the key is not below the entry,
  the bisection halves \<open>[imin, imax)\<close>, and \<^verbatim>\<open>binary_search_with_guess\<close> answers
  \<open>len\<close> for a key above the last entry and \<open>-1\<close> for a key below the first one
  before it looks anywhere else, first near the index found for the previous key.
\<close>

function linear_search_loop :: "real \<Rightarrow> real list \<Rightarrow> nat \<Rightarrow> nat" where
  "linear_search_loop key arr i =
     (if i < length arr \<and> key \<ge> arr ! i then linear_search_loop key arr (Suc i) else i)"
  by pat_completeness auto
termination
  by (relation "measure (\<lambda>(key, arr, i). length arr - i)") auto

definition linear_search :: "real \<Rightarrow> real list \<Rightarrow> nat \<Rightarrow> int" where
  "linear_search key arr i0 = int (linear_search_loop key arr i0) - 1"

function bisection :: "real \<Rightarrow> real list \<Rightarrow> nat \<Rightarrow> nat \<Rightarrow> nat" where
  "bisection key arr imin imax =
     (if imin < imax
      then (let imid = imin + (imax - imin) div 2 in
            if key \<ge> arr ! imid then bisection key arr (imid + 1) imax
            else bisection key arr imin imid)
      else imin)"
  by pat_completeness auto
termination
  by (relation "measure (\<lambda>(key, arr, imin, imax). imax - imin)") auto

definition LIKELY_IN_CACHE_SIZE :: nat where
  "LIKELY_IN_CACHE_SIZE = 8"

definition binary_search_with_guess :: "real \<Rightarrow> real list \<Rightarrow> int \<Rightarrow> int" where
  "binary_search_with_guess key arr guess0 =
     (let len = length arr in
      if key > arr ! (len - 1) then int len
      else if key < arr ! 0 then - 1
      else if len \<le> 4 then linear_search key arr 1
      else
        let guess1 = (if guess0 > int len - 3 then int len - 3 else guess0);
            guess = nat (if guess1 < 1 then 1 else guess1)
        in
          if key < arr ! guess then
            (if key < arr ! (guess - 1) then
               int (bisection key arr
                      (if guess > LIKELY_IN_CACHE_SIZE \<and> key \<ge> arr ! (guess - LIKELY_IN_CACHE_SIZE)
                       then guess - LIKELY_IN_CACHE_SIZE else 0)
                      (guess - 1)) - 1
             else int guess - 1)
          else if key < arr ! (guess + 1) then int guess
          else if key < arr ! (guess + 2) then int guess + 1
          else
            int (bisection key arr (guess + 2)
                   (if guess + LIKELY_IN_CACHE_SIZE + 1 < len \<and> key < arr ! (guess + LIKELY_IN_CACHE_SIZE)
                    then guess + LIKELY_IN_CACHE_SIZE else len)) - 1)"

text \<open>
  The value at one point \<open>x\<close>, given the index \<open>j\<close> the search returned: the first
  response left of the table, the last one right of it and at its last point, and on the
  chord from point \<open>j\<close> to point \<open>j + 1\<close> otherwise.
\<close>

definition interp_at :: "real list \<Rightarrow> real list \<Rightarrow> int \<Rightarrow> real \<Rightarrow> real outcome" where
  "interp_at xp fp j x =
     (let lenxp = length xp in
      if j = - 1 then Value (fp ! 0)
      else if j = int lenxp then Value (fp ! (lenxp - 1))
      else if j = int lenxp - 1 then Value (fp ! nat j)
      else obind (fdiv (fp ! (nat j + 1) - fp ! nat j) (xp ! (nat j + 1) - xp ! nat j))
             (\<lambda>slope. Value (slope * (x - xp ! nat j) + fp ! nat j)))"

text \<open>The loop over the points: each search starts from the index of the one before.\<close>

fun interp_loop :: "real list \<Rightarrow> real list \<Rightarrow> int \<Rightarrow> real list \<Rightarrow> real outcome list" where
  "interp_loop xp fp j [] = []"
| "interp_loop xp fp j (x # xs) =
     (let j' = binary_search_with_guess x xp j
      in interp_at xp fp j' x # interp_loop xp fp j' xs)"

definition interp :: "real list \<Rightarrow> real list \<Rightarrow> real list \<Rightarrow> real list outcome" where
  "interp x xp fp =
     (if length xp = 0 then Raise ValueError
      else if length fp \<noteq> length xp then Raise ValueError
      else if length xp = 1 then Value (map (\<lambda>x_val. fp ! 0) x)
      else collect (interp_loop xp fp 0 x))"

subsection \<open>\<^verbatim>\<open>numpy.argsort\<close> and indexing by an index array\<close>

text \<open>
  The indices that sort the array. numpy's default sort is not stable, this one is:
  they agree when no two entries are equal.
\<close>

definition argsort :: "real list \<Rightarrow> nat list" where
  "argsort xs = map snd (sort_key fst (zip xs [0..<length xs]))"

definition index_by :: "'a list \<Rightarrow> nat list \<Rightarrow> 'a list" where
  "index_by arr idx = map (\<lambda>i. arr ! i) idx"

subsection \<open>\<^verbatim>\<open>scipy.integrate.simps\<close>\<close>

text \<open>
  One panel of \<^verbatim>\<open>_basic_simps\<close> for unequal spacings \<open>h0\<close>, \<open>h1\<close>: Simpson's rule on
  three consecutive samples. A spacing of zero divides by zero.
\<close>

definition simps_panel :: "real \<Rightarrow> real \<Rightarrow> real \<Rightarrow> real \<Rightarrow> real \<Rightarrow> real outcome" where
  "simps_panel y0 y1 y2 h0 h1 =
     (if h0 = 0 \<or> h1 = 0 then NonFinite
      else
        let hsum = h0 + h1; hprod = h0 * h1; h0divh1 = h0 / h1
        in Value (hsum / 6 * (y0 * (2 - 1 / h0divh1) + y1 * hsum * hsum / hprod
                                + y2 * (2 - h0divh1))))"

text \<open>The panels over samples 0-1-2, 2-3-4, ... as far as three samples are left.\<close>

fun basic_simps_terms :: "real list \<Rightarrow> real list \<Rightarrow> real outcome list" where
  "basic_simps_terms (y0 # y1 # y2 # ys) (x0 # x1 # x2 # xs) =
     simps_panel y0 y1 y2 (x1 - x0) (x2 - x1) # basic_simps_terms (y2 # ys) (x2 # xs)"
| "basic_simps_terms ys xs = []"

definition basic_simps :: "real list \<Rightarrow> real list \<Rightarrow> real outcome" where
  "basic_simps y x = obind (collect (basic_simps_terms y x)) (\<lambda>ts. Value (sum_list ts))"

text \<open>
  \<^verbatim>\<open>simps(y, x)\<close> with its default \<^verbatim>\<open>even='avg'\<close>. An odd number of samples is covered by
  panels. An even number is integrated twice and averaged: panels from the first sample
  and a trapezoid on the last interval, and a trapezoid on the first interval and panels
  from the second sample.
\<close>

definition simps :: "real list \<Rightarrow> real list \<Rightarrow> real outcome" where
  "simps y x =
     (let N = length y in
      if length x \<noteq> N then Raise ValueError
      else if even N then
        (if N = 0 then Raise IndexError
         else
           let last_dx = x ! (N - 1) - x ! (N - 2);
               val1 = 0.5 * last_dx * (y ! (N - 1) + y ! (N - 2))
           in obind (basic_simps y x) (\<lambda>result1.
           let first_dx = x ! 1 - x ! 0;
               val2 = val1 + 0.5 * first_dx * (y ! 1 + y ! 0)
           in obind (basic_simps (tl y) (tl x)) (\<lambda>result2.
              Value ((result1 + result2) / 2 + val2 / 2))))
      else basic_simps y x)"

subsection \<open>The magnitude\<close>

definition get_abs_mag :: "ascii_file \<Rightarrow> ascii_file \<Rightarrow> real outcome" where
  "get_abs_mag model_spec_file filter_resp_file =
     obind (load_model model_spec_file False) (\<lambda>(model_nu, model_fnu).
     obind (load_filter filter_resp_file False) (\<lambda>(filter_nu, filter_resp).
     obind (interp model_nu filter_nu filter_resp) (\<lambda>filter_resp_model.
     obind (simps (index_by (map2 (*) model_fnu filter_resp_model) (argsort model_nu))
                  (index_by model_nu (argsort model_nu))) (\<lambda>s1.
       let fnu1 = \<lparr>qvalue = s1, qunit = erg_s_cm2_Hz * Hz\<rparr> in
     obind (simps (index_by filter_resp_model (argsort model_nu))
                  (index_by model_nu (argsort model_nu))) (\<lambda>s2.
       let fnu2 = \<lparr>qvalue = s2 * 3631, qunit = Hz * Jansky\<rparr> in
     obind (qdiv fnu1 fnu2) (\<lambda>ratio.
     obind (qlog10 ratio) (\<lambda>l. Value (- 2.5 * l))))))))"

text \<open>
  The part of \<^verbatim>\<open>get_abs_mag\<close> after the two loads, on the four arrays they return; it
  is named for the proofs only, and \<open>get_abs_mag\<close> above does not use it.
\<close>

definition magnitude_of_arrays ::
  "real list \<Rightarrow> real list \<Rightarrow> real list \<Rightarrow> real list \<Rightarrow> real outcome" where
  "magnitude_of_arrays model_nu model_fnu filter_nu filter_resp =
     obind (interp model_nu filter_nu filter_resp) (\<lambda>filter_resp_model.
     obind (simps (index_by (map2 (*) model_fnu filter_resp_model) (argsort model_nu))
                  (index_by model_nu (argsort model_nu))) (\<lambda>s1.
       let fnu1 = \<lparr>qvalue = s1, qunit = erg_s_cm2_Hz * Hz\<rparr> in
     obind (simps (index_by filter_resp_model (argsort model_nu))
                  (index_by model_nu (argsort model_nu))) (\<lambda>s2.
       let fnu2 = \<lparr>qvalue = s2 * 3631, qunit = Hz * Jansky\<rparr> in
     obind (qdiv fnu1 fnu2) (\<lambda>ratio.
     obind (qlog10 ratio) (\<lambda>l. Value (- 2.5 * l))))))"

subsection \<open>Changes to the input files\<close>

text \<open>
  The files the relational properties compare: a model file with its flux column
  multiplied by a constant, a filter file with its response column (the second one)
  multiplied by a constant, and a file with its rows in the opposite order.
\<close>

definition scale_column :: "string \<Rightarrow> real \<Rightarrow> table \<Rightarrow> table" where
  "scale_column name c t =
     map (\<lambda>(n, col). if n = name then (n, map ((*) c) col) else (n, col)) t"

definition scale_flux :: "real \<Rightarrow> ascii_file \<Rightarrow> ascii_file" where
  "scale_flux c f =
     (case f of Tabular t \<Rightarrow> Tabular (scale_column ''FDET(milliJ)'' c t) | _ \<Rightarrow> f)"

definition scale_response :: "real \<Rightarrow> ascii_file \<Rightarrow> ascii_file" where
  "scale_response c f =
     (case f of
        Tabular [(a, wl), (b, r)] \<Rightarrow> Tabular [(a, wl), (b, map ((*) c) r)]
      | _ \<Rightarrow> f)"


declare linear_search_loop.simps [simp del]
declare bisection.simps [simp del]

subsection \<open>Example files\<close>

text \<open>
  A model file of three samples with the flat spectrum of 3631 jansky, and a filter file
  of two rows, once with its wavelengths increasing down the file and once decreasing.
\<close>

definition example_model :: ascii_file where
  "example_model =
     Tabular [(''LAMBDA(mic)'', [1, 1 / 2, 1 / 4]), (''FDET(milliJ)'', [3631000, 3631000, 3631000])]"

definition example_filter :: ascii_file where
  "example_filter = Tabular [(''col1'', [2000, 12000]), (''col2'', [1 / 2, 1 / 4])]"

definition example_filter_descending :: ascii_file where
  "example_filter_descending = Tabular [(''col1'', [12000, 2000]), (''col2'', [1 / 4, 1 / 2])]"

subsection \<open>Piecewise-linear interpolation, as the specification words it\<close>

text \<open>
  The resampling the specification describes, for tabulated points in ascending order of
  their abscissa: below the first point the first value, from the last point on the last
  value, and in between the chord through the two neighbouring points. A table in any
  other order is sorted by its abscissa first.
\<close>

fun piecewise_linear :: "(real \<times> real) list \<Rightarrow> real \<Rightarrow> real" where
  "piecewise_linear [] x = 0"
| "piecewise_linear [(a, fa)] x = fa"
| "piecewise_linear ((a, fa) # (b, fb) # ps) x =
     (if x \<le> a then fa
      else if x < b then fa + (fb - fa) / (b - a) * (x - a)
      else piecewise_linear ((b, fb) # ps) x)"

definition resample_spec :: "real list \<Rightarrow> real list \<Rightarrow> real list \<Rightarrow> real list" where
  "resample_spec x xp fp = map (piecewise_linear (sort_key fst (zip xp fp))) x"

subsection \<open>Files the specification calls unparsable\<close>


section \<open>Properties\<close>

subsection \<open>Outcomes and conversions\<close>

lemma obind_eq_Value_iff:
  "obind r f = Value w \<longleftrightarrow> (\<exists>v. r = Value v \<and> f v = Value w)"
  by (cases r) auto


lemma collect_eq_Value_iff: "collect rs = Value vs \<longleftrightarrow> rs = map Value vs"
proof (induction rs arbitrary: vs)
  case Nil
  show ?case by auto
next
  case (Cons r rs)
  show ?case
    by (cases r; cases vs) (auto simp: obind_eq_Value_iff Cons.IH)
qed

lemma collect_map_Value: "collect (map (\<lambda>x. Value (f x)) xs) = Value (map f xs)"
  by (simp add: collect_eq_Value_iff comp_def)

lemma collect_fdiv_cases:
  "collect (map (\<lambda>x. fdiv (n x) (d x)) xs) =
     (if \<exists>x \<in> set xs. d x = 0 then NonFinite else Value (map (\<lambda>x. n x / d x) xs))"
  by (induction xs) (auto simp: fdiv_def)

lemma spectral_AA_to_Hz_cases:
  "spectral_AA_to_Hz wl =
     (if 0 \<in> set wl then NonFinite else Value (map (\<lambda>w. c_m_s / (w * (angstrom / metre))) wl))"
  unfolding spectral_AA_to_Hz_def collect_fdiv_cases
  by (auto simp: angstrom_def metre_def)

lemma load_filter_Tabular2:
  "load_filter (Tabular [(a, wl), (b, r)]) lam =
     (if length wl \<noteq> length r then Raise InconsistentTableError
      else if 0 \<in> set wl then NonFinite
      else Value (if lam then wl else map (\<lambda>w. c_m_s / (w * (angstrom / metre))) wl, r))"
  by (auto simp: load_filter_def ascii_read_def getitem_def spectral_AA_to_Hz_cases)

lemma ascii_read_names2_Value:
  "ascii_read f (Some [n1, n2]) = Value t \<longleftrightarrow>
     (\<exists>a b c1 c2. f = Tabular [(a, c1), (b, c2)] \<and> length c1 = length c2 \<and> t = [(n1, c1), (n2, c2)])"
proof (cases f)
  case (Tabular u)
  show ?thesis
  proof (cases u)
    case Nil
    with Tabular show ?thesis by (auto simp: ascii_read_def)
  next
    case (Cons p u')
    show ?thesis
    proof (cases u')
      case Nil
      with Cons Tabular show ?thesis by (auto simp: ascii_read_def)
    next
      case (Cons q u'')
      with \<open>u = p # u'\<close> Tabular show ?thesis
        by (cases p; cases q; cases u'') (auto simp: ascii_read_def)
    qed
  qed
qed (auto simp: ascii_read_def)

subsection \<open>The filter loader\<close>



subsection \<open>The model loader\<close>

lemma ascii_read_None_Tabular:
  "ascii_read (Tabular t) None = (if ragged t then Raise InconsistentTableError else Value t)"
  by (simp add: ascii_read_def)

lemma load_model_Tabular:
  assumes "\<not> ragged t"
    and "map_of t ''LAMBDA(mic)'' = Some lam"
    and "map_of t ''FDET(milliJ)'' = Some fdet"
    and "0 \<notin> set lam"
  shows "load_model (Tabular t) flag =
     Value (if flag
            then (map (\<lambda>w. w * 10 ^ 4) lam,
                  map (\<lambda>(w, f). f / 10 ^ 26 / ((w * 10 ^ 4) ^ 2 / c_AA_s)) (zip lam fdet))
            else (map (\<lambda>w. c_m_s / (w / 10 ^ 6)) lam, map (\<lambda>f. f / 10 ^ 26) fdet))"
proof -
  have wv: "to_unit micron angstrom lam = map (\<lambda>w. w * 10 ^ 4) lam"
    by (simp add: to_unit_def micron_def angstrom_def)
  have nz: "0 \<notin> set (map (\<lambda>w. w * 10 ^ 4) lam)"
    using assms(4) by auto
  have fn: "to_unit milliJansky erg_s_cm2_Hz fdet = map (\<lambda>f. f / 10 ^ 26) fdet"
    by (simp add: to_unit_def milliJansky_def erg_s_cm2_Hz_def)
  have nu: "spectral_AA_to_Hz (map (\<lambda>w. w * 10 ^ 4) lam) = Value (map (\<lambda>w. c_m_s / (w / 10 ^ 6)) lam)"
    using nz by (simp add: spectral_AA_to_Hz_cases comp_def angstrom_def metre_def)
  have fl: "spectral_density_fnu_to_flam (map (\<lambda>w. w * 10 ^ 4) lam) (map (\<lambda>f. f / 10 ^ 26) fdet)
      = Value (map (\<lambda>(w, f). f / 10 ^ 26 / ((w * 10 ^ 4) ^ 2 / c_AA_s)) (zip lam fdet))"
  proof -
    have "zip (map (\<lambda>w. w * 10 ^ 4) lam) (map (\<lambda>f. f / 10 ^ 26) fdet)
        = map (\<lambda>(w, f). (w * 10 ^ 4, f / 10 ^ 26)) (zip lam fdet)"
      by (simp add: zip_map_map)
    moreover have "\<forall>p \<in> set (zip lam fdet). fst p \<noteq> 0"
      using assms(4) by (auto dest: set_zip_leftD)
    ultimately show ?thesis
      unfolding spectral_density_fnu_to_flam_def
      by (simp add: comp_def case_prod_unfold collect_fdiv_cases c_AA_s_def)
  qed
  define W where "W = map (\<lambda>w. w * 10 ^ 4) lam"
  define F where "F = map (\<lambda>f. f / 10 ^ 26) fdet"
  have "load_model (Tabular t) flag =
      obind (spectral_AA_to_Hz W) (\<lambda>model_nu.
        if flag then obind (spectral_density_fnu_to_flam W F) (\<lambda>model_flam. Value (W, model_flam))
        else Value (model_nu, F))"
    using assms(1-3) unfolding W_def F_def wv [symmetric] fn [symmetric]
    by (simp add: load_model_def ascii_read_None_Tabular getitem_def Let_def)
  also have "\<dots> = Value (if flag
            then (map (\<lambda>w. w * 10 ^ 4) lam,
                  map (\<lambda>(w, f). f / 10 ^ 26 / ((w * 10 ^ 4) ^ 2 / c_AA_s)) (zip lam fdet))
            else (map (\<lambda>w. c_m_s / (w / 10 ^ 6)) lam, map (\<lambda>f. f / 10 ^ 26) fdet))"
    unfolding W_def F_def nu fl by simp
  finally show ?thesis .
qed

text \<open>
  Claim C7. For a model table with both columns and no zero wavelength: with the flag
  set, \<^verbatim>\<open>load_model\<close> returns the wavelengths (in angstrom) and the flux density per unit
  wavelength, each sample converted with the factor \<open>c / w\<^sup>2\<close> of its own wavelength
  \<open>w\<close>; with the flag unset it returns the frequencies and the flux density per unit
  frequency.
\<close>

theorem load_model_representation:
  assumes "\<not> ragged t"
    and "map_of t ''LAMBDA(mic)'' = Some lam"
    and "map_of t ''FDET(milliJ)'' = Some fdet"
    and "0 \<notin> set lam"
  shows "load_model (Tabular t) True =
           Value (map (\<lambda>w. w * 10 ^ 4) lam,
                  map (\<lambda>(w, f). f / 10 ^ 26 * (c_AA_s / (w * 10 ^ 4) ^ 2)) (zip lam fdet))
       \<and> load_model (Tabular t) False =
           Value (map (\<lambda>w. c_m_s / (w / 10 ^ 6)) lam, map (\<lambda>f. f / 10 ^ 26) fdet)"
  using load_model_Tabular [OF assms, of True] load_model_Tabular [OF assms, of False]
  by simp

theorem load_model_representation_witness:
  "\<not> ragged [(''LAMBDA(mic)'', [1, 2]), (''FDET(milliJ)'', [3, 4])]
   \<and> load_model (Tabular [(''LAMBDA(mic)'', [1, 2]), (''FDET(milliJ)'', [3, 4])]) True =
       Value ([10000, 20000], [3 / 10 ^ 26 * (c_AA_s / 10 ^ 8), 4 / 10 ^ 26 * (c_AA_s / (4 * 10 ^ 8))])
   \<and> load_model (Tabular [(''LAMBDA(mic)'', [1, 2]), (''FDET(milliJ)'', [3, 4])]) False =
       Value ([c_m_s * 10 ^ 6, c_m_s * 10 ^ 6 / 2], [3 / 10 ^ 26, 4 / 10 ^ 26])"
  using load_model_representation
    [of "[(''LAMBDA(mic)'', [1, 2]), (''FDET(milliJ)'', [3, 4])]" "[1, 2]" "[3, 4]"]
  by simp

text \<open>
  Claim C8. For a model table with both columns and no zero wavelength, the frequency
  axis \<^verbatim>\<open>load_model\<close> returns, converted back to wavelengths by the inverse of the same
  relation and then to microns, is the wavelength column of the file.
\<close>

theorem load_model_frequency_roundtrip:
  assumes "\<not> ragged t"
    and "map_of t ''LAMBDA(mic)'' = Some lam"
    and "map_of t ''FDET(milliJ)'' = Some fdet"
    and "0 \<notin> set lam"
  shows "\<exists>nu fnu. load_model (Tabular t) False = Value (nu, fnu)
           \<and> obind (spectral_Hz_to_AA nu) (\<lambda>wvln. Value (to_unit angstrom micron wvln)) = Value lam"
proof -
  let ?nu = "map (\<lambda>w. c_m_s / (w / 10 ^ 6)) lam"
  have L: "load_model (Tabular t) False = Value (?nu, map (\<lambda>f. f / 10 ^ 26) fdet)"
    using load_model_Tabular [OF assms, of False] by simp
  have nz: "\<forall>w \<in> set lam. c_m_s / (w / 10 ^ 6) \<noteq> 0"
    using assms(4) by (auto simp: c_m_s_def)
  have "collect (map (\<lambda>n. fdiv c_m_s n) ?nu) = Value (map (\<lambda>w. w / 10 ^ 6) lam)"
    using nz by (induction lam) (auto simp: fdiv_def c_m_s_def)
  then have "spectral_Hz_to_AA ?nu = Value (map (\<lambda>w. w * 10 ^ 4) lam)"
    by (simp add: spectral_Hz_to_AA_def to_unit_def metre_def angstrom_def comp_def)
  then have "obind (spectral_Hz_to_AA ?nu) (\<lambda>wvln. Value (to_unit angstrom micron wvln)) = Value lam"
    by (simp add: to_unit_def angstrom_def micron_def comp_def)
  with L show ?thesis by blast
qed

theorem load_model_frequency_roundtrip_witness:
  "\<exists>nu fnu. load_model (Tabular [(''LAMBDA(mic)'', [1, 2]), (''FDET(milliJ)'', [3, 4])]) False = Value (nu, fnu)
           \<and> obind (spectral_Hz_to_AA nu) (\<lambda>wvln. Value (to_unit angstrom micron wvln)) = Value [1, 2]"
  using load_model_frequency_roundtrip
    [of "[(''LAMBDA(mic)'', [1, 2]), (''FDET(milliJ)'', [3, 4])]" "[1, 2]" "[3, 4]"]
  by simp

subsection \<open>Sorting by the index array\<close>

lemma insort_key_fst_map:
  assumes "\<And>p. fst (g p) = fst p"
  shows "insort_key fst (g x) (map g l) = map g (insort_key fst x l)"
  by (induction l) (simp_all add: assms)

lemma sort_key_fst_map:
  assumes "\<And>p. fst (g p) = fst p"
  shows "sort_key fst (map g l) = map g (sort_key fst l)"
  by (induction l) (simp_all add: insort_key_fst_map [OF assms])

lemma zip_upt_nth:
  assumes "length ys = length xs"
  shows "map (\<lambda>(x, i). (x, ys ! i)) (zip xs [0..<length xs]) = zip xs ys"
proof (rule nth_equalityI)
  show "length (map (\<lambda>(x, i). (x, ys ! i)) (zip xs [0..<length xs])) = length (zip xs ys)"
    using assms by simp
next
  fix i
  assume "i < length (map (\<lambda>(x, i). (x, ys ! i)) (zip xs [0..<length xs]))"
  then have "i < length xs" by simp
  then show "map (\<lambda>(x, i). (x, ys ! i)) (zip xs [0..<length xs]) ! i = zip xs ys ! i"
    using assms by simp
qed

lemma index_by_argsort:
  assumes "length ys = length xs"
  shows "index_by ys (argsort xs) = map snd (sort_key fst (zip xs ys))"
proof -
  let ?g = "\<lambda>(x, i). (x, ys ! i)"
  have "index_by ys (argsort xs) = map snd (map ?g (sort_key fst (zip xs [0..<length xs])))"
    by (simp add: index_by_def argsort_def comp_def case_prod_unfold)
  also have "map ?g (sort_key fst (zip xs [0..<length xs])) = sort_key fst (map ?g (zip xs [0..<length xs]))"
    by (rule sort_key_fst_map [symmetric]) auto
  also have "map ?g (zip xs [0..<length xs]) = zip xs ys"
    by (rule zip_upt_nth [OF assms])
  finally show ?thesis .
qed

lemma map_fst_insort_key:
  "map fst (insort_key fst p l) = insort (fst p) (map fst l)"
  by (induction l) simp_all

lemma map_fst_sort_key:
  "map fst (sort_key fst l) = sort (map fst l)"
  by (induction l) (simp_all add: map_fst_insort_key)

lemma map_fst_sort_key_zip:
  assumes "length ys = length xs"
  shows "map fst (sort_key fst (zip xs ys)) = sort xs"
  using assms by (simp add: map_fst_sort_key)

lemma index_by_argsort_self: "index_by xs (argsort xs) = sort xs"
proof -
  have "index_by xs (argsort xs) = map snd (sort_key fst (zip xs xs))"
    by (rule index_by_argsort) simp
  also have "zip xs xs = map (\<lambda>x. (x, x)) xs"
    by (induction xs) simp_all
  also have "map snd (sort_key fst (map (\<lambda>x. (x, x)) xs)) = map fst (sort_key fst (map (\<lambda>x. (x, x)) xs))"
    by (rule map_cong) auto
  also have "\<dots> = sort xs"
    by (simp add: map_fst_sort_key comp_def)
  finally show ?thesis .
qed

subsection \<open>Simpson's rule is linear in the samples\<close>

lemma simps_panel_scale:
  "simps_panel (c * y0) (c * y1) (c * y2) h0 h1 = obind (simps_panel y0 y1 y2 h0 h1) (\<lambda>v. Value (c * v))"
  by (simp add: simps_panel_def Let_def algebra_simps)

lemma basic_simps_terms_scale:
  "basic_simps_terms (map ((*) c) y) x = map (\<lambda>r. obind r (\<lambda>v. Value (c * v))) (basic_simps_terms y x)"
  by (induction y x rule: basic_simps_terms.induct) (simp_all add: simps_panel_scale)

lemma collect_map_obind:
  "collect (map (\<lambda>r. obind r (\<lambda>v. Value (g v))) rs) = obind (collect rs) (\<lambda>vs. Value (map g vs))"
proof (induction rs)
  case Nil
  show ?case by simp
next
  case (Cons r rs)
  show ?case
    by (cases r; cases "collect rs") (simp_all add: Cons.IH)
qed

lemma basic_simps_scale:
  "basic_simps (map ((*) c) y) x = obind (basic_simps y x) (\<lambda>v. Value (c * v))"
proof -
  have "basic_simps (map ((*) c) y) x
      = obind (obind (collect (basic_simps_terms y x)) (\<lambda>vs. Value (map ((*) c) vs))) (\<lambda>ts. Value (sum_list ts))"
    by (simp add: basic_simps_def basic_simps_terms_scale collect_map_obind)
  also have "\<dots> = obind (basic_simps y x) (\<lambda>v. Value (c * v))"
    by (cases "collect (basic_simps_terms y x)") (simp_all add: basic_simps_def sum_list_const_mult)
  finally show ?thesis .
qed

lemma simps_scale:
  "simps (map ((*) c) y) x = obind (simps y x) (\<lambda>v. Value (c * v))"
proof (cases "length x = length y \<and> even (length y) \<and> length y \<noteq> 0")
  case False
  then show ?thesis
    by (auto simp: simps_def Let_def basic_simps_scale)
next
  case True
  then have "length y \<noteq> 0" and "length y \<noteq> 1"
    by (blast, metis odd_one)
  then have "1 < length y"
    by linarith
  then have n: "length y - 1 < length y" "length y - 2 < length y" "0 < length y" "1 < length y"
    by auto
  show ?thesis
    using True n
    by (cases "basic_simps y x"; cases "basic_simps (tl y) (tl x)")
       (simp_all add: simps_def Let_def basic_simps_scale map_tl [symmetric] algebra_simps del: map_tl)
qed

subsection \<open>The index found by the search lies within the table\<close>


lemma linear_search_loop_bounds:
  "i \<le> length arr \<Longrightarrow> i \<le> linear_search_loop key arr i \<and> linear_search_loop key arr i \<le> length arr"
proof (induction key arr i rule: linear_search_loop.induct)
  case (1 key arr i)
  show ?case
  proof (cases "i < length arr \<and> key \<ge> arr ! i")
    case True
    with 1 show ?thesis
      by (subst (1 2) linear_search_loop.simps) auto
  next
    case False
    with 1 show ?thesis
      by (subst (1 2) linear_search_loop.simps) auto
  qed
qed

lemma bisection_bounds:
  "imin \<le> imax \<Longrightarrow> imin \<le> bisection key arr imin imax \<and> bisection key arr imin imax \<le> imax"
proof (induction key arr imin imax rule: bisection.induct)
  case (1 key arr imin imax)
  show ?case
  proof (cases "imin < imax")
    case False
    with 1 show ?thesis
      by (subst (1 2) bisection.simps) auto
  next
    case True
    let ?imid = "imin + (imax - imin) div 2"
    have mid: "imin \<le> ?imid" "?imid < imax"
      using True by auto
    show ?thesis
    proof (cases "key \<ge> arr ! ?imid")
      case ge: True
      have "?imid + 1 \<le> bisection key arr (?imid + 1) imax \<and> bisection key arr (?imid + 1) imax \<le> imax"
        using 1(1) [OF True refl ge] mid by auto
      then show ?thesis
        using True ge mid by (subst (1 2) bisection.simps) (auto simp: Let_def)
    next
      case lt: False
      have "imin \<le> bisection key arr imin ?imid \<and> bisection key arr imin ?imid \<le> ?imid"
        using 1(2) [OF True refl lt] mid by auto
      then show ?thesis
        using True lt mid by (subst (1 2) bisection.simps) (auto simp: Let_def)
    qed
  qed
qed

text \<open>The search with its intermediate values named.\<close>

lemma binary_search_with_guess_unfold:
  fixes key :: real and arr :: "real list" and g :: int
  defines "len \<equiv> length arr"
  defines "guess \<equiv> nat (max 1 (min g (int len - 3)))"
  defines "lo \<equiv> (if guess > 8 \<and> key \<ge> arr ! (guess - 8) then guess - 8 else 0)"
  defines "hi \<equiv> (if guess + 9 < len \<and> key < arr ! (guess + 8) then guess + 8 else len)"
  shows "binary_search_with_guess key arr g =
     (if key > arr ! (len - 1) then int len
      else if key < arr ! 0 then - 1
      else if len \<le> 4 then linear_search key arr 1
      else if key < arr ! guess then
        (if key < arr ! (guess - 1) then int (bisection key arr lo (guess - 1)) - 1 else int guess - 1)
      else if key < arr ! (guess + 1) then int guess
      else if key < arr ! (guess + 2) then int guess + 1
      else int (bisection key arr (guess + 2) hi) - 1)"
proof -
  have g: "nat (if (if g > int len - 3 then int len - 3 else g) < 1 then 1
                else (if g > int len - 3 then int len - 3 else g)) = guess"
    unfolding guess_def by (simp add: max_def min_def)
  show ?thesis
    unfolding binary_search_with_guess_def Let_def LIKELY_IN_CACHE_SIZE_def len_def [symmetric] g
      lo_def hi_def
    by (simp only: add.assoc one_add_one numeral_plus_one semiring_norm)
qed

lemma binary_search_with_guess_bounds:
  assumes "arr \<noteq> []"
  shows "- 1 \<le> binary_search_with_guess key arr g \<and> binary_search_with_guess key arr g \<le> int (length arr)"
proof -
  define len where "len = length arr"
  define guess where "guess = nat (max 1 (min g (int len - 3)))"
  define lo where "lo = (if guess > 8 \<and> key \<ge> arr ! (guess - 8) then guess - 8 else 0)"
  define hi where "hi = (if guess + 9 < len \<and> key < arr ! (guess + 8) then guess + 8 else len)"
  note u = binary_search_with_guess_unfold [of key arr g, folded len_def, folded guess_def,
      folded lo_def hi_def]
  have len: "1 \<le> len" using assms by (cases arr) (auto simp: len_def)
  have ls: "1 \<le> linear_search_loop key arr 1 \<and> linear_search_loop key arr 1 \<le> len"
    using linear_search_loop_bounds [of 1 arr key] len by (simp add: len_def)
  show ?thesis
  proof (cases "len \<le> 4")
    case True
    then show ?thesis
      using ls len unfolding u by (auto simp: linear_search_def len_def)
  next
    case False
    then have gb: "1 \<le> guess" "guess + 3 \<le> len"
      by (auto simp: guess_def)
    have lo: "lo \<le> guess - 1" using gb by (auto simp: lo_def)
    have hi: "guess + 2 \<le> hi" "hi \<le> len" using gb by (auto simp: hi_def)
    have b1: "bisection key arr lo (guess - 1) \<le> guess - 1"
      using bisection_bounds [OF lo, of key arr] by simp
    have b2: "bisection key arr (guess + 2) hi \<le> hi"
      using bisection_bounds [OF hi(1), of key arr] by simp
    show ?thesis
      using False gb b1 b2 hi(2) unfolding u len_def [symmetric] by auto
  qed
qed

subsection \<open>Interpolation is linear in the tabulated values\<close>

lemma interp_at_scale:
  assumes "- 1 \<le> j" and "j \<le> int (length xp)" and "length fp = length xp" and "xp \<noteq> []"
  shows "interp_at xp (map ((*) c) fp) j x = obind (interp_at xp fp j x) (\<lambda>v. Value (c * v))"
proof -
  have len: "0 < length fp" using assms(3,4) by simp
  consider "j = - 1" | "j = int (length xp)" | "j = int (length xp) - 1"
    | "0 \<le> j" "j < int (length xp) - 1"
    using assms(1,2) by linarith
  then show ?thesis
  proof cases
    case 4
    then have n: "nat j < length fp" "nat j + 1 < length fp"
      using assms(3) by auto
    have "j \<noteq> - 1" "j \<noteq> int (length xp)" "j \<noteq> int (length xp) - 1"
      using 4 by auto
    then show ?thesis
      using n by (simp add: interp_at_def Let_def fdiv_def algebra_simps)
  next
    case 3
    have "nat j < length fp"
      using 3 len assms(3) by linarith
    moreover have "j \<noteq> - 1" and "j \<noteq> int (length xp)"
      using 3 len assms(3) by linarith+
    ultimately have "nat j < length fp" and "j \<noteq> - 1" and "j \<noteq> int (length xp)"
      by blast+
    then show ?thesis
      by (simp add: interp_at_def Let_def 3 [symmetric])
  qed (use len assms(3) in \<open>auto simp: interp_at_def Let_def\<close>)
qed

lemma interp_loop_scale:
  assumes "length fp = length xp" and "xp \<noteq> []"
  shows "interp_loop xp (map ((*) c) fp) j xs
       = map (\<lambda>r. obind r (\<lambda>v. Value (c * v))) (interp_loop xp fp j xs)"
proof (induction xs arbitrary: j)
  case Nil
  show ?case by simp
next
  case (Cons x xs)
  have "interp_at xp (map ((*) c) fp) (binary_search_with_guess x xp j) x
      = obind (interp_at xp fp (binary_search_with_guess x xp j) x) (\<lambda>v. Value (c * v))"
    using binary_search_with_guess_bounds [OF assms(2), of x j] assms
    by (intro interp_at_scale) auto
  then show ?case
    by (simp add: Let_def Cons.IH)
qed

lemma interp_scale:
  "interp x xp (map ((*) c) fp) = obind (interp x xp fp) (\<lambda>r. Value (map ((*) c) r))"
proof (cases "length xp = 0 \<or> length fp \<noteq> length xp")
  case True
  then show ?thesis by (auto simp: interp_def)
next
  case False
  then have ok: "length fp = length xp" "xp \<noteq> []" by auto
  show ?thesis
  proof (cases "length xp = 1")
    case True
    with ok show ?thesis by (simp add: interp_def comp_def)
  next
    case False
    with ok show ?thesis
      by (simp add: interp_def interp_loop_scale collect_map_obind)
  qed
qed

lemma length_collect: "collect rs = Value vs \<Longrightarrow> length vs = length rs"
  by (simp add: collect_eq_Value_iff)

lemma length_interp_loop: "length (interp_loop xp fp j xs) = length xs"
  by (induction xs arbitrary: j) (simp_all add: Let_def)

lemma length_interp: "interp x xp fp = Value r \<Longrightarrow> length r = length x"
  by (auto simp: interp_def length_interp_loop split: if_splits dest!: length_collect)

subsection \<open>The magnitude in terms of the loaded arrays\<close>

lemma get_abs_mag_arrays:
  "get_abs_mag m f =
     obind (load_model m False) (\<lambda>(nu, fnu).
     obind (load_filter f False) (\<lambda>(fx, fr). magnitude_of_arrays nu fnu fx fr))"
  by (simp add: get_abs_mag_def magnitude_of_arrays_def)

lemma not_ragged_lengths:
  assumes "\<not> ragged t" and "(n1, c1) \<in> set t" and "(n2, c2) \<in> set t"
  shows "length c1 = length c2"
proof (cases t)
  case Nil
  with assms show ?thesis by simp
next
  case (Cons p t')
  obtain n c where p: "p = (n, c)" by (cases p)
  have "length d = length c" if "(k, d) \<in> set t" for k d
    using that assms(1) unfolding Cons p by (auto simp: image_iff)
  from this [OF assms(2)] this [OF assms(3)] show ?thesis by simp
qed

lemma length_spectral_AA_to_Hz: "spectral_AA_to_Hz wl = Value nu \<Longrightarrow> length nu = length wl"
  by (auto simp: spectral_AA_to_Hz_cases split: if_splits)

lemma load_model_lengths:
  assumes "load_model m False = Value (nu, fnu)"
  shows "length fnu = length nu"
proof -
  from assms obtain t lam nu' fdet where
    r: "ascii_read m None = Value t" and
    l: "getitem t ''LAMBDA(mic)'' = Value lam" and
    n: "spectral_AA_to_Hz (to_unit micron angstrom lam) = Value nu'" and
    f: "getitem t ''FDET(milliJ)'' = Value fdet" and
    e: "nu = nu'" "fnu = to_unit milliJansky erg_s_cm2_Hz fdet"
    by (auto simp: load_model_def obind_eq_Value_iff Let_def)
  from r have nr: "\<not> ragged t"
    by (auto simp: ascii_read_def split: ascii_file.splits if_splits)
  from l f have "(''LAMBDA(mic)'', lam) \<in> set t" "(''FDET(milliJ)'', fdet) \<in> set t"
    by (auto simp: getitem_def split: option.splits dest: map_of_SomeD)
  then have "length lam = length fdet"
    by (rule not_ragged_lengths [OF nr])
  moreover have "length nu' = length lam"
    using length_spectral_AA_to_Hz [OF n] by (simp add: to_unit_def)
  ultimately show ?thesis by (simp add: e to_unit_def)
qed

lemma index_by_argsort_map:
  assumes "length ys = length xs"
  shows "index_by (map f ys) (argsort xs) = map f (index_by ys (argsort xs))"
proof -
  have "index_by (map f ys) (argsort xs) = map snd (sort_key fst (zip xs (map f ys)))"
    using assms by (simp add: index_by_argsort)
  also have "zip xs (map f ys) = map (\<lambda>(x, y). (x, f y)) (zip xs ys)"
    by (simp add: zip_map2)
  also have "sort_key fst (map (\<lambda>(x, y). (x, f y)) (zip xs ys))
      = map (\<lambda>(x, y). (x, f y)) (sort_key fst (zip xs ys))"
    by (rule sort_key_fst_map) auto
  also have "map snd (map (\<lambda>(x, y). (x, f y)) (sort_key fst (zip xs ys)))
      = map f (map snd (sort_key fst (zip xs ys)))"
    by (simp add: comp_def case_prod_unfold)
  finally show ?thesis
    using assms by (simp add: index_by_argsort)
qed

lemma map2_mult_scale_left:
  "map2 (*) (map ((*) c) xs) ys = map ((*) (c::real)) (map2 (*) xs ys)"
  by (induction xs ys rule: list_induct2') simp_all

lemma map2_mult_scale_right:
  "map2 (*) xs (map ((*) c) ys) = map ((*) (c::real)) (map2 (*) xs ys)"
  by (induction xs ys rule: list_induct2') simp_all

text \<open>The last three steps of the magnitude: the two quantities, their ratio, the logarithm.\<close>

lemma magnitude_of_arrays_steps:
  "magnitude_of_arrays nu fnu fx fr =
     obind (interp nu fx fr) (\<lambda>R.
     obind (simps (index_by (map2 (*) fnu R) (argsort nu)) (sort nu)) (\<lambda>s1.
     obind (simps (index_by R (argsort nu)) (sort nu)) (\<lambda>s2.
       if s2 = 0 \<or> s1 / (s2 * 3631) * 10 ^ 23 \<le> 0 then NonFinite
       else Value (- 2.5 * log 10 (s1 / (s2 * 3631) * 10 ^ 23)))))"
  unfolding magnitude_of_arrays_def index_by_argsort_self Let_def
  by (rule arg_cong [where f = "obind (interp nu fx fr)"], rule ext,
      rule arg_cong [where f = "obind _"], rule ext,
      rule arg_cong [where f = "obind _"], rule ext)
     (simp add: qdiv_def fdiv_def qlog10_def log10_def erg_s_cm2_Hz_def Hz_def Jansky_def)

subsection \<open>Scaling the filter response\<close>

lemma magnitude_scale_response:
  assumes "c \<noteq> 0" and "length fnu = length nu"
  shows "magnitude_of_arrays nu fnu fx (map ((*) c) fr) = magnitude_of_arrays nu fnu fx fr"
proof (cases "interp nu fx fr")
  case (Value R)
  then have len: "length R = length nu" by (rule length_interp)
  then have len2: "length (map2 (*) fnu R) = length nu" using assms(2) by simp
  have s1: "simps (index_by (map2 (*) fnu (map ((*) c) R)) (argsort nu)) (sort nu)
      = obind (simps (index_by (map2 (*) fnu R) (argsort nu)) (sort nu)) (\<lambda>v. Value (c * v))"
    by (simp only: map2_mult_scale_right index_by_argsort_map [OF len2] simps_scale)
  have s2: "simps (index_by (map ((*) c) R) (argsort nu)) (sort nu)
      = obind (simps (index_by R (argsort nu)) (sort nu)) (\<lambda>v. Value (c * v))"
    by (simp only: index_by_argsort_map [OF len] simps_scale)
  show ?thesis
    unfolding magnitude_of_arrays_steps interp_scale Value obind.simps s1 s2
    using assms(1)
    by (cases "simps (index_by (map2 (*) fnu R) (argsort nu)) (sort nu)";
        cases "simps (index_by R (argsort nu)) (sort nu)") simp_all
qed (simp_all add: magnitude_of_arrays_steps interp_scale)

lemma load_filter_not_two_columns:
  assumes "\<nexists>a wl b r. f = Tabular [(a, wl), (b, r)]"
  shows "\<exists>e. load_filter f flag = Raise e"
proof -
  have "\<nexists>t. ascii_read f (Some [''wavelength'', ''response'']) = Value t"
    using assms by (auto simp: ascii_read_names2_Value)
  moreover have "ascii_read f (Some [''wavelength'', ''response'']) \<noteq> NonFinite"
    by (auto simp: ascii_read_def split: ascii_file.splits)
  ultimately obtain e where "ascii_read f (Some [''wavelength'', ''response'']) = Raise e"
    by (cases "ascii_read f (Some [''wavelength'', ''response''])") auto
  then show ?thesis by (simp add: load_filter_def)
qed

lemma load_filter_scale_response:
  "load_filter (scale_response c f) False
     = obind (load_filter f False) (\<lambda>(fx, fr). Value (fx, map ((*) c) fr))"
proof (cases "\<exists>a wl b r. f = Tabular [(a, wl), (b, r)]")
  case True
  then obtain a wl b r where f: "f = Tabular [(a, wl), (b, r)]" by blast
  show ?thesis
    unfolding f by (simp add: scale_response_def load_filter_Tabular2)
next
  case False
  then have same: "scale_response c f = f"
    by (auto simp: scale_response_def split: ascii_file.splits list.splits)
  from False obtain e where "load_filter f False = Raise e"
    using load_filter_not_two_columns [of f False] by blast
  then show ?thesis by (simp add: same)
qed

text \<open>
  Claim C4. Multiplying every response value of the filter file by one constant other than
  zero leaves the outcome of \<^verbatim>\<open>get_abs_mag\<close> as it is, for every model file and every
  filter file: both integrals are multiplied by the constant, and their ratio is not
  changed.
\<close>

theorem filter_rescaling_invariance:
  assumes "c \<noteq> 0"
  shows "get_abs_mag m (scale_response c f) = get_abs_mag m f"
proof (cases "load_model m False")
  case (Value p)
  obtain nu fnu where p: "p = (nu, fnu)" by (cases p)
  have len: "length fnu = length nu"
    using Value unfolding p by (rule load_model_lengths)
  show ?thesis
    unfolding get_abs_mag_arrays Value p load_filter_scale_response
    by (cases "load_filter f False")
       (auto simp: magnitude_scale_response [OF assms len])
qed (simp_all add: get_abs_mag_arrays)

subsection \<open>Scaling the model flux\<close>

lemma last_steps_scale:
  fixes a b c :: real
  assumes "0 < c"
  shows "(if b = 0 \<or> c * a / (b * 3631) * 10 ^ 23 \<le> 0 then NonFinite
          else Value (- 2.5 * log 10 (c * a / (b * 3631) * 10 ^ 23)))
       = obind (if b = 0 \<or> a / (b * 3631) * 10 ^ 23 \<le> 0 then NonFinite
                else Value (- 2.5 * log 10 (a / (b * 3631) * 10 ^ 23)))
           (\<lambda>mag. Value (mag - 2.5 * log 10 c))"
proof -
  define r where "r = a / (b * 3631) * 10 ^ 23"
  have e: "c * a / (b * 3631) * 10 ^ 23 = c * r"
    by (simp add: r_def)
  have s: "c * r \<le> 0 \<longleftrightarrow> r \<le> 0"
    using assms by (simp add: mult_le_0_iff)
  have l: "log 10 (c * r) = log 10 c + log 10 r" if "0 < r"
    by (rule log_mult_pos [OF assms that])
  show ?thesis
    unfolding e r_def [symmetric] s
    by (auto simp: l not_le field_simps)
qed

lemma magnitude_scale_flux:
  assumes "0 < c" and "length fnu = length nu"
  shows "magnitude_of_arrays nu (map ((*) c) fnu) fx fr
       = obind (magnitude_of_arrays nu fnu fx fr) (\<lambda>mag. Value (mag - 2.5 * log 10 c))"
proof (cases "interp nu fx fr")
  case (Value R)
  then have len: "length R = length nu" by (rule length_interp)
  then have len2: "length (map2 (*) fnu R) = length nu" using assms(2) by simp
  have s1: "simps (index_by (map2 (*) (map ((*) c) fnu) R) (argsort nu)) (sort nu)
      = obind (simps (index_by (map2 (*) fnu R) (argsort nu)) (sort nu)) (\<lambda>v. Value (c * v))"
    by (simp only: map2_mult_scale_left index_by_argsort_map [OF len2] simps_scale)
  show ?thesis
    unfolding magnitude_of_arrays_steps Value obind.simps s1
    by (cases "simps (index_by (map2 (*) fnu R) (argsort nu)) (sort nu)";
        cases "simps (index_by R (argsort nu)) (sort nu)")
       (simp_all only: obind.simps last_steps_scale [OF assms(1)])
qed (simp_all add: magnitude_of_arrays_steps)

lemma ragged_scale_column: "ragged (scale_column n c t) = ragged t"
proof (cases t)
  case Nil
  then show ?thesis by (simp add: scale_column_def)
next
  case (Cons p t')
  obtain k col where p: "p = (k, col)" by (cases p)
  have "(\<exists>d\<in>set (map snd (map (\<lambda>(n', col). if n' = n then (n', map ((*) c) col) else (n', col)) t')). length d \<noteq> l)
      = (\<exists>d\<in>set (map snd t'). length d \<noteq> l)" for l
    by (induction t') (auto split: if_splits)
  then show ?thesis
    unfolding Cons p by (simp add: scale_column_def)
qed

lemma map_of_scale_column:
  "map_of (scale_column n c t) k
     = map_option (\<lambda>col. if k = n then map ((*) c) col else col) (map_of t k)"
  by (induction t) (auto simp: scale_column_def)

lemma to_unit_scale: "to_unit a b (map ((*) c) vs) = map ((*) c) (to_unit a b vs)"
  by (simp add: to_unit_def algebra_simps)

lemma load_model_scale_flux:
  "load_model (scale_flux c m) False
     = obind (load_model m False) (\<lambda>(nu, fnu). Value (nu, map ((*) c) fnu))"
proof (cases m)
  case (Tabular t)
  show ?thesis
  proof (cases "ragged t")
    case True
    then show ?thesis
      by (simp add: Tabular scale_flux_def load_model_def ascii_read_None_Tabular ragged_scale_column)
  next
    case False
    show ?thesis
    proof (cases "map_of t ''LAMBDA(mic)''")
      case None
      then show ?thesis
        using False
        by (simp add: Tabular scale_flux_def load_model_def ascii_read_None_Tabular
            ragged_scale_column getitem_def map_of_scale_column)
    next
      case (Some lam)
      show ?thesis
        using False Some
        by (cases "spectral_AA_to_Hz (to_unit micron angstrom lam)"; cases "map_of t ''FDET(milliJ)''")
           (simp_all add: Tabular scale_flux_def load_model_def ascii_read_None_Tabular
            ragged_scale_column getitem_def map_of_scale_column to_unit_scale Let_def)
    qed
  qed
qed (simp_all add: scale_flux_def load_model_def ascii_read_def)

text \<open>
  Claim C6. Multiplying every flux density of the model file by a constant \<open>c > 0\<close>
  lowers the magnitude by \<open>2.5 log\<^sub>10 c\<close>, for every model file and every filter file;
  a run that raises or leaves the finite numbers does so with the scaled file too.
\<close>

theorem flux_scaling_shifts_magnitude:
  assumes "0 < c"
  shows "get_abs_mag (scale_flux c m) f
       = obind (get_abs_mag m f) (\<lambda>mag. Value (mag - 2.5 * log 10 c))"
proof (cases "load_model m False")
  case (Value p)
  obtain nu fnu where p: "p = (nu, fnu)" by (cases p)
  have len: "length fnu = length nu"
    using Value unfolding p by (rule load_model_lengths)
  show ?thesis
    unfolding get_abs_mag_arrays load_model_scale_flux Value p
    by (cases "load_filter f False")
       (auto simp: magnitude_scale_flux [OF assms len])
qed (simp_all add: get_abs_mag_arrays load_model_scale_flux)

subsection \<open>The example files\<close>

lemma example_load_model:
  "load_model example_model False =
     Value ([299792458000000, 599584916000000, 1199169832000000],
            [3631 / 10 ^ 23, 3631 / 10 ^ 23, 3631 / 10 ^ 23])"
  by (simp add: example_model_def load_model_def ascii_read_def getitem_def spectral_AA_to_Hz_cases
      to_unit_def micron_def angstrom_def metre_def milliJansky_def erg_s_cm2_Hz_def c_m_s_def)

lemma example_load_filter:
  "load_filter example_filter False = Value ([1498962290000000, 749481145000000 / 3], [1 / 2, 1 / 4])"
  by (simp add: example_filter_def load_filter_Tabular2 c_m_s_def angstrom_def metre_def)

lemma example_load_filter_descending:
  "load_filter example_filter_descending False
     = Value ([749481145000000 / 3, 1498962290000000], [1 / 4, 1 / 2])"
  by (simp add: example_filter_descending_def load_filter_Tabular2 c_m_s_def angstrom_def metre_def)

lemma example_interp:
  "interp [299792458000000, 599584916000000, 1199169832000000]
          [1498962290000000, 749481145000000 / 3] [1 / 2, 1 / 4]
     = Value [1 / 4, 1 / 4, 1 / 4]"
  by (simp add: interp_def binary_search_with_guess_unfold interp_at_def)

lemma example_interp_descending:
  "interp [299792458000000, 599584916000000, 1199169832000000]
          [749481145000000 / 3, 1498962290000000] [1 / 4, 1 / 2]
     = Value [13 / 50, 8 / 25, 11 / 25]"
  by (simp add: interp_def binary_search_with_guess_unfold interp_at_def linear_search_def
      linear_search_loop.simps fdiv_def)

lemma example_argsort:
  "argsort [299792458000000, 599584916000000, 1199169832000000] = [0, 1, 2]"
  by (simp add: argsort_def upt_rec)

lemma example_magnitude: "get_abs_mag example_model example_filter = Value 0"
  by (simp add: get_abs_mag_def example_load_model example_load_filter example_interp example_argsort
      index_by_def simps_def basic_simps_def simps_panel_def qdiv_def fdiv_def qlog10_def log10_def
      erg_s_cm2_Hz_def Hz_def Jansky_def)

lemma example_magnitude_descending:
  "get_abs_mag example_model example_filter_descending = Value 0"
  by (simp add: get_abs_mag_def example_load_model example_load_filter_descending
      example_interp_descending example_argsort
      index_by_def simps_def basic_simps_def simps_panel_def qdiv_def fdiv_def qlog10_def log10_def
      erg_s_cm2_Hz_def Hz_def Jansky_def)

theorem filter_rescaling_invariance_witness:
  "(2 :: real) \<noteq> 0 \<and> get_abs_mag example_model (scale_response 2 example_filter) = Value 0"
  using filter_rescaling_invariance [of 2 example_model example_filter]
  by (simp add: example_magnitude)

theorem flux_scaling_shifts_magnitude_witness:
  "(0 :: real) < 100 \<and> get_abs_mag (scale_flux 100 example_model) example_filter = Value (- 5)"
proof -
  have "log 10 (100 :: real) = 2"
    using log_pow_cancel [of 10 2] by simp
  then show ?thesis
    using flux_scaling_shifts_magnitude [of 100 example_model example_filter]
    by (simp add: example_magnitude)
qed

subsection \<open>Simpson's rule\<close>

text \<open>
  The panel of \<open>simps\<close> is Simpson's rule: on equal spacings it has the weights 1, 4, 1,
  and on any two spacings it integrates a polynomial of degree two exactly.
\<close>

lemma simps_panel_equal_spacing:
  assumes "h \<noteq> 0"
  shows "simps_panel y0 y1 y2 h h = Value (h / 3 * (y0 + 4 * y1 + y2))"
  using assms by (simp add: simps_panel_def Let_def field_simps)

lemma simps_panel_exact_on_quadratics:
  fixes a b c x0 h0 h1 :: real
  defines "p \<equiv> \<lambda>x. a * x ^ 2 + b * x + c"
  defines "P \<equiv> \<lambda>x. a * x ^ 3 / 3 + b * x ^ 2 / 2 + c * x"
  assumes "h0 \<noteq> 0" and "h1 \<noteq> 0"
  shows "simps_panel (p x0) (p (x0 + h0)) (p (x0 + h0 + h1)) h0 h1 = Value (P (x0 + h0 + h1) - P x0)"
proof -
  have "(h0 + h1) / 6 * (p x0 * (2 - 1 / (h0 / h1)) + p (x0 + h0) * (h0 + h1) * (h0 + h1) / (h0 * h1)
          + p (x0 + h0 + h1) * (2 - h0 / h1)) = P (x0 + h0 + h1) - P x0"
    using assms(3,4) unfolding p_def P_def
    by (simp add: field_simps power2_eq_square power3_eq_cube)
  then show ?thesis
    using assms(3,4) by (simp add: simps_panel_def Let_def)
qed

subsection \<open>The magnitude as a formula\<close>

lemma get_abs_mag_formula_arrays:
  assumes "load_model m False = Value (nu, fnu)"
    and "load_filter f False = Value (fx, fr)"
    and "interp nu fx fr = Value R"
    and "simps (map snd (sort_key fst (zip nu (map2 (*) fnu R)))) (sort nu) = Value num"
    and "simps (map snd (sort_key fst (zip nu R))) (sort nu) = Value den"
  shows "get_abs_mag m f =
     (if den = 0 \<or> num / (den * (3631 * Jansky)) \<le> 0 then NonFinite
      else Value (- 2.5 * log 10 (num / (den * (3631 * Jansky)))))"
proof -
  have lenR: "length R = length nu"
    using assms(3) by (rule length_interp)
  have lenF: "length fnu = length nu"
    using assms(1) by (rule load_model_lengths)
  have i1: "index_by (map2 (*) fnu R) (argsort nu) = map snd (sort_key fst (zip nu (map2 (*) fnu R)))"
    by (rule index_by_argsort) (simp add: lenR lenF)
  have i2: "index_by R (argsort nu) = map snd (sort_key fst (zip nu R))"
    by (rule index_by_argsort) (simp add: lenR)
  have r: "num / (den * 3631) * 10 ^ 23 = num / (den * (3631 * Jansky))"
    by (simp add: Jansky_def)
  show ?thesis
    unfolding get_abs_mag_arrays assms(1,2) obind.simps prod.case magnitude_of_arrays_steps
      assms(3) i1 i2 assms(4,5) r
    by simp
qed

subsection \<open>A constant response\<close>

lemma simps_panel_const:
  assumes "h0 \<noteq> 0" and "h1 \<noteq> 0"
  shows "simps_panel r r r h0 h1 = Value (r * (h0 + h1))"
  using assms by (simp add: simps_panel_def Let_def field_simps)

lemma basic_simps_terms_const:
  assumes "sorted_wrt (<) xs" and "length ys = length xs" and "set ys \<subseteq> {r}" and "xs \<noteq> []"
  shows "\<exists>ts. collect (basic_simps_terms ys xs) = Value ts
           \<and> sum_list ts = r * (xs ! (2 * ((length xs - 1) div 2)) - xs ! 0)"
  using assms
proof (induction ys xs rule: basic_simps_terms.induct)
  case (1 y0 y1 y2 ys x0 x1 x2 xs)
  have y: "y0 = r" "y1 = r" "y2 = r"
    using "1.prems"(3) by auto
  have h: "x1 - x0 \<noteq> 0" "x2 - x1 \<noteq> 0"
    using "1.prems"(1) by auto
  have p: "simps_panel y0 y1 y2 (x1 - x0) (x2 - x1) = Value (r * (x2 - x0))"
    unfolding y using simps_panel_const [OF h, of r] by simp
  obtain ts where ts: "collect (basic_simps_terms (y2 # ys) (x2 # xs)) = Value ts"
    "sum_list ts = r * ((x2 # xs) ! (2 * ((length (x2 # xs) - 1) div 2)) - (x2 # xs) ! 0)"
    using "1.IH" "1.prems" by auto
  have idx: "(x0 # x1 # x2 # xs) ! (2 * ((length (x0 # x1 # x2 # xs) - 1) div 2))
      = (x2 # xs) ! (2 * ((length (x2 # xs) - 1) div 2))"
  proof -
    have "2 * ((length (x0 # x1 # x2 # xs) - 1) div 2) = Suc (Suc (2 * (length xs div 2)))"
      by simp
    then show ?thesis by simp
  qed
  show ?case
    unfolding idx
    using ts p by (simp add: algebra_simps)
qed (auto simp: less_Suc_eq)

lemma basic_simps_const:
  assumes "sorted_wrt (<) xs" and "length ys = length xs" and "set ys \<subseteq> {r}" and "xs \<noteq> []"
  shows "basic_simps ys xs = Value (r * (xs ! (2 * ((length xs - 1) div 2)) - xs ! 0))"
  using basic_simps_terms_const [OF assms] by (auto simp: basic_simps_def)

lemma simps_const:
  assumes "sorted_wrt (<) xs" and "length ys = length xs" and "set ys \<subseteq> {r}" and "xs \<noteq> []"
  shows "simps ys xs = Value (r * (last xs - hd xs))"
proof -
  define N where "N = length xs"
  have N: "0 < N" using assms(4) by (simp add: N_def)
  have lst: "last xs = xs ! (N - 1)" and hd: "hd xs = xs ! 0"
    using assms(4) by (simp_all add: N_def last_conv_nth hd_conv_nth)
  have b1: "basic_simps ys xs = Value (r * (xs ! (2 * ((N - 1) div 2)) - xs ! 0))"
    unfolding N_def by (rule basic_simps_const [OF assms])
  show ?thesis
  proof (cases "even N")
    case False
    then have "2 * ((N - 1) div 2) = N - 1"
      by (auto elim!: oddE)
    with False b1 show ?thesis
      using assms(2) by (simp add: simps_def Let_def N_def [symmetric] lst hd)
  next
    case True
    with N have N2: "2 \<le> N" by (cases "N = 1") auto
    have e1: "2 * ((N - 1) div 2) = N - 2"
      using True N2 by (auto elim!: evenE)
    have tl_ne: "tl xs \<noteq> []"
      using N2 by (cases xs; cases "tl xs") (auto simp: N_def)
    have "sorted_wrt (<) (tl xs)"
      using assms(1) by (cases xs) auto
    moreover have "length (tl ys) = length (tl xs)"
      using assms(2) by simp
    moreover have "set (tl ys) \<subseteq> {r}"
      using assms(3) by (cases ys) auto
    ultimately have b2': "basic_simps (tl ys) (tl xs)
        = Value (r * (tl xs ! (2 * ((length (tl xs) - 1) div 2)) - tl xs ! 0))"
      using tl_ne by (rule basic_simps_const)
    have lt: "length (tl xs) = N - 1" by (simp add: N_def)
    have e2: "2 * ((N - 1 - 1) div 2) = N - 2"
      using True N2 by (auto elim!: evenE)
    have "Suc (N - 2) = N - 1"
      using N2 by simp
    then have "tl xs ! (N - 2) = xs ! (N - 1)" and "tl xs ! 0 = xs ! 1"
      using N2 by (simp_all add: nth_tl N_def)
    then have b2: "basic_simps (tl ys) (tl xs) = Value (r * (xs ! (N - 1) - xs ! 1))"
      using b2' unfolding lt e2 by simp
    have yv: "ys ! i = r" if "i < N" for i
    proof -
      have "ys ! i \<in> set ys"
        using that assms(2) by (simp add: N_def)
      then show ?thesis using assms(3) by blast
    qed
    have ys: "ys ! (N - Suc 0) = r" "ys ! (N - 2) = r" "ys ! Suc 0 = r" "ys ! 0 = r"
      using N2 by (auto intro!: yv)
    have n2: "N - Suc (Suc 0) = N - 2" by simp
    have "simps ys xs = Value ((r * (xs ! (N - 2) - xs ! 0) + r * (xs ! (N - Suc 0) - xs ! Suc 0)) / 2
        + (0.5 * (xs ! (N - Suc 0) - xs ! (N - 2)) * (r + r) + 0.5 * (xs ! Suc 0 - xs ! 0) * (r + r)) / 2)"
      using True N assms(2) b2
      by (simp add: simps_def Let_def N_def [symmetric] b1 e1 ys n2)
    also have "\<dots> = Value (r * (xs ! (N - Suc 0) - xs ! 0))"
      by (simp add: field_simps)
    finally show ?thesis
      by (simp add: lst hd)
  qed
qed

lemma interp_at_const:
  assumes "distinct xp" and "- 1 \<le> j" and "j \<le> int (length xp)" and "xp \<noteq> []"
  shows "interp_at xp (replicate (length xp) r) j x = Value r"
proof -
  have len: "0 < length xp" using assms(4) by simp
  consider "j = - 1" | "j = int (length xp)" | "j = int (length xp) - 1"
    | "0 \<le> j" "j < int (length xp) - 1"
    using assms(2,3) by linarith
  then show ?thesis
  proof cases
    case 3
    have "nat j < length xp"
      using 3 len by linarith
    moreover have "j \<noteq> - 1" and "j \<noteq> int (length xp)"
      using 3 len by linarith+
    ultimately show ?thesis
      by (simp add: interp_at_def Let_def 3 [symmetric])
  next
    case 4
    then have n: "nat j < length xp" "nat j + 1 < length xp"
      by auto
    then have "xp ! (nat j + 1) \<noteq> xp ! nat j"
      using assms(1) by (simp add: nth_eq_iff_index_eq)
    moreover have "j \<noteq> - 1" "j \<noteq> int (length xp)" "j \<noteq> int (length xp) - 1"
      using 4 by auto
    ultimately show ?thesis
      using n by (simp add: interp_at_def Let_def fdiv_def)
  qed (use len in \<open>auto simp: interp_at_def Let_def\<close>)
qed

lemma interp_loop_const:
  assumes "distinct xp" and "xp \<noteq> []"
  shows "interp_loop xp (replicate (length xp) r) j xs = map (\<lambda>x. Value r) xs"
proof (induction xs arbitrary: j)
  case Nil
  show ?case by simp
next
  case (Cons x xs)
  have "interp_at xp (replicate (length xp) r) (binary_search_with_guess x xp j) x = Value r"
    using binary_search_with_guess_bounds [OF assms(2), of x j] assms
    by (intro interp_at_const) auto
  then show ?case
    by (simp add: Let_def Cons.IH)
qed

lemma interp_const:
  assumes "distinct xp" and "xp \<noteq> []"
  shows "interp x xp (replicate (length xp) r) = Value (replicate (length x) r)"
proof (cases "length xp = 1")
  case True
  then show ?thesis
    by (simp add: interp_def map_replicate_const)
next
  case False
  have "collect (map (\<lambda>x. Value r) x) = Value (map (\<lambda>x. r) x)"
    by (rule collect_map_Value)
  with False show ?thesis
    using assms(2)
    by (simp add: interp_def interp_loop_const [OF assms] map_replicate_const)
qed

lemma hd_sort_Min:
  fixes xs :: "real list"
  assumes "xs \<noteq> []"
  shows "hd (sort xs) = Min (set xs)"
proof -
  have ne: "sort xs \<noteq> []" using assms by (metis length_0_conv length_sort)
  have "hd (sort xs) \<in> set (sort xs)" using ne by (rule hd_in_set)
  then have "hd (sort xs) \<in> set xs" by simp
  moreover have "hd (sort xs) \<le> y" if "y \<in> set xs" for y
  proof -
    from that have "y \<in> set (sort xs)" by simp
    then show ?thesis
      using ne sorted_sort [of xs] by (cases "sort xs") auto
  qed
  ultimately show ?thesis
    by (intro Min_eqI [symmetric]) auto
qed

lemma last_sort_Max:
  fixes xs :: "real list"
  assumes "xs \<noteq> []"
  shows "last (sort xs) = Max (set xs)"
proof -
  have ne: "sort xs \<noteq> []" using assms by (metis length_0_conv length_sort)
  have "last (sort xs) \<in> set (sort xs)" using ne by (rule last_in_set)
  then have "last (sort xs) \<in> set xs" by simp
  moreover have "y \<le> last (sort xs)" if "y \<in> set xs" for y
  proof -
    from that have "y \<in> set (sort xs)" by simp
    then obtain i where i: "i < length (sort xs)" "sort xs ! i = y"
      unfolding in_set_conv_nth by blast
    then have "sort xs ! i \<le> sort xs ! (length (sort xs) - 1)"
      by (intro sorted_nth_mono) auto
    then show ?thesis
      using i ne by (simp add: last_conv_nth)
  qed
  ultimately show ?thesis
    by (intro Max_eqI [symmetric]) auto
qed

lemma spectral_frequencies_distinct:
  assumes "distinct wl" and "0 \<notin> set wl"
  shows "distinct (map (\<lambda>w. c_m_s / (w * (angstrom / metre))) wl)"
proof -
  have "inj_on (\<lambda>w. c_m_s / (w * (angstrom / metre))) (set wl)"
  proof (rule inj_onI)
    fix v w
    assume "v \<in> set wl" "w \<in> set wl"
      and "c_m_s / (v * (angstrom / metre)) = c_m_s / (w * (angstrom / metre))"
    then show "v = w"
      using assms(2) by (auto simp: c_m_s_def angstrom_def metre_def field_simps)
  qed
  then show ?thesis
    using assms(1) by (simp add: distinct_map)
qed

lemma constant_response_arrays:
  assumes "load_model m False = Value (nu, fnu)"
    and "distinct nu" and "2 \<le> length nu"
    and "distinct wl" and "wl \<noteq> []" and "0 \<notin> set wl"
    and "r \<noteq> 0"
    and "simps (map snd (sort_key fst (zip nu fnu))) (sort nu) = Value S"
  shows "get_abs_mag m (Tabular [(a, wl), (b, replicate (length wl) r)]) =
     (let mean = S / (Max (set nu) - Min (set nu))
      in if mean / (3631 * Jansky) \<le> 0 then NonFinite
         else Value (- 2.5 * log 10 (mean / (3631 * Jansky))))"
proof -
  define fx where "fx = map (\<lambda>w. c_m_s / (w * (angstrom / metre))) wl"
  define N where "N = length nu"
  have ne: "nu \<noteq> []" using assms(3) by auto
  have lenF: "length fnu = N"
    unfolding N_def using assms(1) by (rule load_model_lengths)
  have lf: "load_filter (Tabular [(a, wl), (b, replicate (length wl) r)]) False
      = Value (fx, replicate (length fx) r)"
    using assms(6) by (simp add: load_filter_Tabular2 fx_def)
  have dfx: "distinct fx" "fx \<noteq> []"
    using spectral_frequencies_distinct [OF assms(4,6)] assms(5) by (simp_all add: fx_def)
  have it: "interp nu fx (replicate (length fx) r) = Value (replicate N r)"
    unfolding N_def by (rule interp_const [OF dfx])
  have m2: "map2 (*) fnu (replicate N r) = map ((*) r) fnu"
    using lenF
    by (intro nth_equalityI) (simp_all add: mult.commute)
  have lenF': "length fnu = length nu" using lenF by (simp add: N_def)
  have i1: "index_by (map ((*) r) fnu) (argsort nu) = map ((*) r) (map snd (sort_key fst (zip nu fnu)))"
    using index_by_argsort_map [OF lenF', of "(*) r"] index_by_argsort [OF lenF'] by simp
  have s1: "simps (index_by (map2 (*) fnu (replicate N r)) (argsort nu)) (sort nu) = Value (r * S)"
    unfolding m2 i1 simps_scale assms(8) by simp
  have rep: "replicate N r = map (\<lambda>x. r) nu"
    by (simp add: N_def map_replicate_const)
  have i2: "index_by (replicate N r) (argsort nu) = replicate N r"
    unfolding rep
    using index_by_argsort_map [of nu nu "\<lambda>x. r"]
    by (simp add: index_by_argsort_self map_replicate_const)
  have ss: "sorted_wrt (<) (sort nu)"
    using assms(2) by (simp add: strict_sorted_iff)
  have s2: "simps (index_by (replicate N r) (argsort nu)) (sort nu)
      = Value (r * (Max (set nu) - Min (set nu)))"
  proof -
    have sne: "sort nu \<noteq> []"
      using ne by (metis length_0_conv length_sort)
    have "simps (replicate N r) (sort nu) = Value (r * (last (sort nu) - hd (sort nu)))"
      by (rule simps_const [OF ss _ _ sne]) (auto simp: N_def)
    then show ?thesis
      unfolding i2 by (simp add: hd_sort_Min [OF ne] last_sort_Max [OF ne])
  qed
  have width: "Max (set nu) - Min (set nu) \<noteq> 0"
  proof -
    have l: "0 < length nu" "1 < length nu" "(0::nat) \<noteq> 1"
      using assms(3) by auto
    then have "nu ! 0 \<noteq> nu ! 1"
      using assms(2) nth_eq_iff_index_eq by blast
    moreover have "nu ! 0 \<in> set nu" "nu ! 1 \<in> set nu"
      using l by (simp_all only: nth_mem)
    ultimately have "Min (set nu) \<noteq> Max (set nu)"
      by (metis List.finite_set Max_ge Min_le order_antisym)
    then show ?thesis by simp
  qed
  have ratio: "r * S / (r * (Max (set nu) - Min (set nu)) * 3631) * 10 ^ 23
      = S / (Max (set nu) - Min (set nu)) / (3631 * Jansky)"
    using assms(7) by (simp add: Jansky_def)
  show ?thesis
    unfolding get_abs_mag_arrays assms(1) lf obind.simps prod.case magnitude_of_arrays_steps
      it s1 s2 ratio Let_def
    using assms(7) width by simp
qed

lemma example_numerator:
  "simps (map snd (sort_key fst (zip [299792458000000, 599584916000000, 1199169832000000 :: real]
            (map2 (*) [3631 / 10 ^ 23, 3631 / 10 ^ 23, 3631 / 10 ^ 23] [1 / 4, 1 / 4, 1 / 4]))))
         (sort [299792458000000, 599584916000000, 1199169832000000])
     = Value (3631 / (4 * 10 ^ 23) * 899377374000000)"
  by (simp add: simps_def basic_simps_def simps_panel_def)

lemma example_denominator:
  "simps (map snd (sort_key fst (zip [299792458000000, 599584916000000, 1199169832000000 :: real]
            [1 / 4, 1 / 4, 1 / 4])))
         (sort [299792458000000, 599584916000000, 1199169832000000])
     = Value 224844343500000"
  by (simp add: simps_def basic_simps_def simps_panel_def)

lemma example_flux_integral:
  "simps (map snd (sort_key fst (zip [299792458000000, 599584916000000, 1199169832000000 :: real]
            [3631 / 10 ^ 23, 3631 / 10 ^ 23, 3631 / 10 ^ 23])))
         (sort [299792458000000, 599584916000000, 1199169832000000])
     = Value (3631 / 10 ^ 23 * 899377374000000)"
  by (simp add: simps_def basic_simps_def simps_panel_def)

subsection \<open>The search on a sorted table\<close>

text \<open>
  On a sorted table every search ends at the number of leading entries that are not above
  the key, wherever it started.
\<close>

lemma takeWhile_le_length:
  fixes arr :: "real list"
  assumes "k \<le> length arr"
    and "\<And>i. i < k \<Longrightarrow> arr ! i \<le> key"
    and "k < length arr \<Longrightarrow> key < arr ! k"
  shows "length (takeWhile (\<lambda>a. a \<le> key) arr) = k"
proof -
  have "takeWhile (\<lambda>a. a \<le> key) arr = take k arr"
    using assms(2,3) by (intro takeWhile_eq_take_P_nth) auto
  then show ?thesis using assms(1) by simp
qed

lemma linear_search_loop_sorted:
  assumes "i \<le> length arr" and "\<And>k. k < i \<Longrightarrow> arr ! k \<le> key"
  shows "length (takeWhile (\<lambda>a. a \<le> key) arr) = linear_search_loop key arr i"
  using assms
proof (induction key arr i rule: linear_search_loop.induct)
  case (1 key arr i)
  show ?case
  proof (cases "i < length arr \<and> key \<ge> arr ! i")
    case True
    have "arr ! k \<le> key" if "k < Suc i" for k
      using that True "1.prems"(2) by (cases "k = i") auto
    then have "length (takeWhile (\<lambda>a. a \<le> key) arr) = linear_search_loop key arr (Suc i)"
      using True by (intro "1.IH") auto
    then show ?thesis
      using True by (subst linear_search_loop.simps) simp
  next
    case False
    have "length (takeWhile (\<lambda>a. a \<le> key) arr) = i"
      using False "1.prems" by (intro takeWhile_le_length) auto
    then show ?thesis
      using False by (subst linear_search_loop.simps) auto
  qed
qed

lemma bisection_sorted:
  assumes "sorted arr" and "imin \<le> imax" and "imax \<le> length arr"
    and "\<And>i. i < imin \<Longrightarrow> arr ! i \<le> key"
    and "imax < length arr \<Longrightarrow> key < arr ! imax"
  shows "length (takeWhile (\<lambda>a. a \<le> key) arr) = bisection key arr imin imax"
  using assms
proof (induction key arr imin imax rule: bisection.induct)
  case (1 key arr imin imax)
  show ?case
  proof (cases "imin < imax")
    case False
    then have "imin = imax" using "1.prems"(2) by simp
    then have "length (takeWhile (\<lambda>a. a \<le> key) arr) = imin"
      using "1.prems" by (intro takeWhile_le_length) auto
    then show ?thesis
      using False by (subst bisection.simps) simp
  next
    case True
    let ?imid = "imin + (imax - imin) div 2"
    have mid: "imin \<le> ?imid" "?imid < imax" "?imid < length arr"
      using True "1.prems"(3) by auto
    show ?thesis
    proof (cases "key \<ge> arr ! ?imid")
      case ge: True
      have "arr ! i \<le> key" if "i < ?imid + 1" for i
      proof -
        have "arr ! i \<le> arr ! ?imid"
          using that mid(3) "1.prems"(1) by (intro sorted_nth_mono) auto
        with ge show ?thesis by simp
      qed
      then have "length (takeWhile (\<lambda>a. a \<le> key) arr) = bisection key arr (?imid + 1) imax"
        using "1.prems" mid by (intro "1.IH"(1) [OF True refl ge]) auto
      then show ?thesis
        using True ge by (subst bisection.simps) (simp add: Let_def)
    next
      case lt: False
      have "length (takeWhile (\<lambda>a. a \<le> key) arr) = bisection key arr imin ?imid"
        using "1.prems" mid lt by (intro "1.IH"(2) [OF True refl lt]) auto
      then show ?thesis
        using True lt by (subst bisection.simps) (simp add: Let_def)
    qed
  qed
qed

lemma binary_search_with_guess_sorted:
  assumes "sorted arr" and "arr \<noteq> []"
  shows "binary_search_with_guess key arr g =
     (if key > last arr then int (length arr)
      else int (length (takeWhile (\<lambda>a. a \<le> key) arr)) - 1)"
proof -
  define len where "len = length arr"
  define guess where "guess = nat (max 1 (min g (int len - 3)))"
  define lo where "lo = (if guess > 8 \<and> key \<ge> arr ! (guess - 8) then guess - 8 else 0)"
  define hi where "hi = (if guess + 9 < len \<and> key < arr ! (guess + 8) then guess + 8 else len)"
  define T where "T = length (takeWhile (\<lambda>a. a \<le> key) arr)"
  note u = binary_search_with_guess_unfold [of key arr g, folded len_def, folded guess_def,
      folded lo_def hi_def]
  have len: "1 \<le> len" using assms(2) by (cases arr) (auto simp: len_def)
  have lst: "last arr = arr ! (len - 1)"
    using assms(2) by (simp add: last_conv_nth len_def)
  have mono: "arr ! i \<le> arr ! j" if "i \<le> j" "j < len" for i j
    using that assms(1) by (intro sorted_nth_mono) (auto simp: len_def)
  have TI: "T = k" if "k \<le> len" "\<And>i. i < k \<Longrightarrow> arr ! i \<le> key" "k < len \<Longrightarrow> key < arr ! k" for k
    unfolding T_def using that by (intro takeWhile_le_length) (auto simp: len_def)
  show ?thesis
  proof (cases "key > arr ! (len - 1)")
    case True
    then show ?thesis
      unfolding u lst by (simp add: len_def)
  next
    case nhigh: False
    show ?thesis
    proof (cases "key < arr ! 0")
      case True
      have "T = 0"
        using True by (intro TI) auto
      with True nhigh show ?thesis
        unfolding u lst T_def by simp
    next
      case nlow: False
      show ?thesis
      proof (cases "len \<le> 4")
        case True
        have "T = linear_search_loop key arr 1"
          unfolding T_def using nlow len
          by (intro linear_search_loop_sorted) (auto simp: len_def)
        with True nhigh nlow show ?thesis
          unfolding u lst T_def by (simp add: linear_search_def)
      next
        case big: False
        then have gb: "1 \<le> guess" "guess + 3 \<le> len"
          by (auto simp: guess_def)
        have lo: "lo \<le> guess - 1" using gb by (auto simp: lo_def)
        have hi: "guess + 2 \<le> hi" "hi \<le> len" using gb by (auto simp: hi_def)
        consider (a) "key < arr ! guess" "key < arr ! (guess - 1)"
          | (b) "key < arr ! guess" "\<not> key < arr ! (guess - 1)"
          | (c) "\<not> key < arr ! guess" "key < arr ! (guess + 1)"
          | (d) "\<not> key < arr ! guess" "\<not> key < arr ! (guess + 1)" "key < arr ! (guess + 2)"
          | (e) "\<not> key < arr ! guess" "\<not> key < arr ! (guess + 1)" "\<not> key < arr ! (guess + 2)"
          by blast
        then have "binary_search_with_guess key arr g = int T - 1"
        proof cases
          case a
          have below: "arr ! i \<le> key" if "i < lo" for i
          proof -
            from that have l: "lo = guess - 8" "key \<ge> arr ! (guess - 8)" "guess > 8"
              by (auto simp: lo_def split: if_splits)
            have "arr ! i \<le> arr ! (guess - 8)"
              using that l gb by (intro mono) auto
            with l show ?thesis by simp
          qed
          have "T = bisection key arr lo (guess - 1)"
            unfolding T_def
            using lo gb a(2) below by (intro bisection_sorted [OF assms(1)]) (auto simp: len_def)
          with a nhigh nlow big show ?thesis
            unfolding u by simp
        next
          case b
          have "T = guess"
          proof (rule TI)
            show "guess \<le> len" using gb by simp
            show "arr ! i \<le> key" if "i < guess" for i
            proof -
              have "arr ! i \<le> arr ! (guess - 1)"
                using that gb by (intro mono) auto
              with b(2) show ?thesis by simp
            qed
            show "key < arr ! guess" by (rule b(1))
          qed
          with b nhigh nlow big show ?thesis
            unfolding u by simp
        next
          case c
          have "T = guess + 1"
          proof (rule TI)
            show "guess + 1 \<le> len" using gb by simp
            show "arr ! i \<le> key" if "i < guess + 1" for i
            proof -
              have "arr ! i \<le> arr ! guess"
                using that gb by (intro mono) auto
              with c(1) show ?thesis by simp
            qed
            show "key < arr ! (guess + 1)" by (rule c(2))
          qed
          with c nhigh nlow big show ?thesis
            unfolding u by simp
        next
          case d
          have "T = guess + 2"
          proof (rule TI)
            show "guess + 2 \<le> len" using gb by simp
            show "arr ! i \<le> key" if "i < guess + 2" for i
            proof -
              have "arr ! i \<le> arr ! (guess + 1)"
                using that gb by (intro mono) auto
              with d(2) show ?thesis by simp
            qed
            show "key < arr ! (guess + 2)" by (rule d(3))
          qed
          with d nhigh nlow big show ?thesis
            unfolding u by simp
        next
          case e
          have below: "arr ! i \<le> key" if "i < guess + 2" for i
          proof -
            have "arr ! i \<le> arr ! (guess + 2)"
              using that gb by (intro mono) auto
            with e(3) show ?thesis by simp
          qed
          have above: "key < arr ! hi" if "hi < len"
            using that by (auto simp: hi_def split: if_splits)
          have "T = bisection key arr (guess + 2) hi"
            unfolding T_def
            using hi below above by (intro bisection_sorted [OF assms(1)]) (auto simp: len_def)
          with e nhigh nlow big show ?thesis
            unfolding u by simp
        qed
        with nhigh show ?thesis
          unfolding lst T_def by simp
      qed
    qed
  qed
qed

lemma binary_search_with_guess_descending:
  assumes "arr \<noteq> []" and "last arr < hd arr"
  shows "binary_search_with_guess key arr g = (if key > last arr then int (length arr) else - 1)"
proof -
  have "last arr = arr ! (length arr - 1)" "hd arr = arr ! 0"
    using assms(1) by (simp_all add: last_conv_nth hd_conv_nth)
  then show ?thesis
    using assms(2) unfolding binary_search_with_guess_unfold by auto
qed

lemma sorted_rev_constant:
  fixes arr :: "real list"
  assumes "sorted (rev arr)" and "arr \<noteq> []" and "\<not> last arr < hd arr"
  shows "sorted arr"
proof -
  have b: "last arr \<le> x \<and> x \<le> hd arr" if "x \<in> set arr" for x
  proof -
    from that obtain i where i: "i < length arr" "arr ! i = x"
      unfolding in_set_conv_nth by blast
    have "arr ! (length arr - 1) \<le> arr ! i" "arr ! i \<le> arr ! 0"
      using i assms(1) by (auto intro!: sorted_rev_nth_mono)
    then show ?thesis
      using i assms(2) by (simp add: last_conv_nth hd_conv_nth)
  qed
  have "hd arr \<in> set arr" using assms(2) by simp
  then have "hd arr \<le> last arr" using assms(3) by simp
  then have c: "x = hd arr" if "x \<in> set arr" for x
    using b [OF that] by simp
  have "arr ! i \<le> arr ! j" if "i < j" "j < length arr" for i j
  proof -
    have "arr ! i = hd arr"
      using that by (intro c) simp
    moreover have "arr ! j = hd arr"
      using that by (intro c) simp
    ultimately show ?thesis by simp
  qed
  then show ?thesis
    by (simp add: sorted_wrt_iff_nth_less)
qed

lemma binary_search_with_guess_free:
  assumes "sorted arr \<or> sorted (rev arr)" and "arr \<noteq> []"
  shows "binary_search_with_guess key arr g = binary_search_with_guess key arr g'"
proof (cases "last arr < hd arr")
  case True
  then show ?thesis
    by (simp add: binary_search_with_guess_descending [OF assms(2)])
next
  case False
  then have "sorted arr"
    using assms sorted_rev_constant by blast
  then show ?thesis
    by (simp add: binary_search_with_guess_sorted [OF _ assms(2)])
qed

lemma interp_loop_guess_free:
  assumes "sorted xp \<or> sorted (rev xp)" and "xp \<noteq> []"
  shows "interp_loop xp fp j xs = map (\<lambda>x. interp_at xp fp (binary_search_with_guess x xp 0) x) xs"
proof (induction xs arbitrary: j)
  case Nil
  show ?case by simp
next
  case (Cons x xs)
  show ?case
    using binary_search_with_guess_free [OF assms, of x j 0]
    by (simp add: Let_def Cons.IH)
qed

subsection \<open>Arrays of results without exceptions\<close>






subsection \<open>The order of the model rows\<close>


















subsection \<open>Resampling on rising and on falling tables\<close>

lemma interp_at_Cons:
  assumes "0 \<le> j" and "xp \<noteq> []" and "length fp = length xp"
  shows "interp_at (a # xp) (fa # fp) (j + 1) x = interp_at xp fp j x"
proof -
  have n: "nat (j + 1) = Suc (nat j)" using assms(1) by simp
  have l: "(fa # fp) ! (length (a # xp) - 1) = fp ! (length xp - 1)"
    using assms(2) by (cases xp) auto
  have c1: "j + 1 \<noteq> - 1" "j \<noteq> - 1" using assms(1) by auto
  have c2: "j + 1 = int (length (a # xp)) \<longleftrightarrow> j = int (length xp)" by auto
  have c3: "j + 1 = int (length (a # xp)) - 1 \<longleftrightarrow> j = int (length xp) - 1" by auto
  show ?thesis
    unfolding interp_at_def Let_def c2 c3 l n
    using c1 by simp
qed

lemma interp_at_sorted:
  assumes "sorted_wrt (<) xp" and "xp \<noteq> []" and "length fp = length xp"
  shows "interp_at xp fp
           (if x > last xp then int (length xp)
            else int (length (takeWhile (\<lambda>a. a \<le> x) xp)) - 1) x
         = Value (piecewise_linear (zip xp fp) x)"
  using assms
proof (induction xp arbitrary: fp)
  case Nil
  then show ?case by simp
next
  case (Cons a xp)
  obtain fa fp' where fp: "fp = fa # fp'"
    using Cons.prems(3) by (cases fp) auto
  show ?case
  proof (cases xp)
    case Nil
    then have "fp' = []" using Cons.prems(3) fp by simp
    then show ?thesis
      unfolding Nil fp by (simp add: interp_at_def)
  next
    case (Cons b rest)
    obtain fb frest where fp': "fp' = fb # frest"
      using Cons.prems(3) fp Cons by (cases fp') auto
    have ab: "a < b" using Cons.prems(1) Cons by simp
    have lst: "last (a # xp) = last xp" using Cons by simp
    have blast: "b \<le> last xp"
    proof -
      have "sorted xp" using Cons.prems(1) by (simp add: strict_sorted_iff)
      then have "xp ! 0 \<le> xp ! (length xp - 1)"
        by (intro sorted_nth_mono) (auto simp: Cons)
      moreover have "xp ! 0 = b" by (simp add: Cons)
      moreover have "last xp = xp ! (length xp - 1)"
        by (rule last_conv_nth) (simp add: Cons)
      ultimately show ?thesis by simp
    qed
    consider (below) "x \<le> a" | (first) "a < x" "x < b" | (rest) "b \<le> x"
      by linarith
    then show ?thesis
    proof cases
      case below
      then have nl: "\<not> x > last (a # xp)" using blast ab lst by simp
      show ?thesis
      proof (cases "x = a")
        case True
        then have "takeWhile (\<lambda>c. c \<le> x) (a # xp) = [a]"
          using ab Cons by simp
        then show ?thesis
          using nl True ab unfolding fp fp' Cons
          by (simp add: interp_at_def fdiv_def)
      next
        case False
        then have "takeWhile (\<lambda>c. c \<le> x) (a # xp) = []"
          using below by simp
        then show ?thesis
          using nl below unfolding fp fp' Cons
          by (simp add: interp_at_def)
      qed
    next
      case first
      then have nl: "\<not> x > last (a # xp)" using blast lst by simp
      have "takeWhile (\<lambda>c. c \<le> x) (a # xp) = [a]"
        using first Cons by simp
      then show ?thesis
        using nl first ab unfolding fp fp' Cons
        by (simp add: interp_at_def fdiv_def)
    next
      case rest
      define j where "j = (if x > last xp then int (length xp)
            else int (length (takeWhile (\<lambda>a. a \<le> x) xp)) - 1)"
      have tw: "takeWhile (\<lambda>c. c \<le> x) (a # xp) = a # takeWhile (\<lambda>c. c \<le> x) xp"
        using rest ab by simp
      have "takeWhile (\<lambda>c. c \<le> x) xp \<noteq> []"
        using rest Cons by simp
      then have j0: "0 \<le> j"
        unfolding j_def by (cases "takeWhile (\<lambda>c. c \<le> x) xp") auto
      have shift: "(if x > last (a # xp) then int (length (a # xp))
            else int (length (takeWhile (\<lambda>c. c \<le> x) (a # xp))) - 1) = j + 1"
        unfolding lst tw j_def by simp
      have xne: "xp \<noteq> []" using Cons by simp
      have len: "length fp' = length xp" using Cons.prems(3) fp by simp
      have "interp_at xp fp' j x = Value (piecewise_linear (zip xp fp') x)"
        unfolding j_def using Cons.prems(1) xne len by (intro Cons.IH) auto
      moreover have "piecewise_linear (zip (a # xp) fp) x = piecewise_linear (zip xp fp') x"
        using rest ab unfolding fp fp' Cons by simp
      ultimately show ?thesis
        unfolding shift fp interp_at_Cons [OF j0 xne len] by simp
    qed
  qed
qed

lemma interp_ascending:
  assumes "sorted_wrt (<) xp" and "xp \<noteq> []" and "length fp = length xp"
  shows "interp x xp fp = Value (map (piecewise_linear (zip xp fp)) x)"
proof (cases "length xp = 1")
  case True
  then obtain a where a: "xp = [a]" by (cases xp) auto
  then obtain fa where fa: "fp = [fa]" using assms(3) by (cases fp) auto
  show ?thesis unfolding a fa by (simp add: interp_def)
next
  case False
  have s: "sorted xp" using assms(1) by (simp add: strict_sorted_iff)
  have "interp_loop xp fp 0 x = map (\<lambda>v. Value (piecewise_linear (zip xp fp) v)) x"
    unfolding interp_loop_guess_free [OF disjI1 [OF s] assms(2)]
      binary_search_with_guess_sorted [OF s assms(2)] interp_at_sorted [OF assms]
    by (rule refl)
  then show ?thesis
    using False assms(2,3) by (simp add: interp_def collect_map_Value)
qed

lemma interp_descending:
  assumes "xp \<noteq> []" and "last xp < hd xp" and "length fp = length xp"
  shows "interp x xp fp = Value (map (\<lambda>v. if v > last xp then last fp else hd fp) x)"
proof -
  have ne: "xp \<noteq> []" "fp \<noteq> []" using assms by auto
  then have n1: "length xp \<noteq> 1" using assms(2) by (cases xp) auto
  have "interp_at xp fp (if v > last xp then int (length xp) else - 1) v
      = Value (if v > last xp then last fp else hd fp)" for v
    using ne assms(3) by (simp add: interp_at_def last_conv_nth hd_conv_nth)
  then have "interp_loop xp fp j x = map (\<lambda>v. Value (if v > last xp then last fp else hd fp)) x" for j
    by (induction x arbitrary: j)
       (simp_all add: Let_def binary_search_with_guess_descending [OF ne(1) assms(2)])
  then show ?thesis
    using ne n1 assms(3) by (simp add: interp_def collect_map_Value)
qed

lemma interp_frequency_ordered:
  assumes "sorted_wrt (<) xp" and "xp \<noteq> []" and "length fp = length xp"
  shows "interp x xp fp = Value (resample_spec x xp fp)"
proof -
  have "sorted (map fst (zip xp fp))"
    using assms(1,3) by (simp add: strict_sorted_iff)
  then have "sort_key fst (zip xp fp) = zip xp fp"
    by (rule sort_key_id_if_sorted)
  then show ?thesis
    by (simp add: interp_ascending [OF assms] resample_spec_def)
qed

subsection \<open>A filter file in order of increasing wavelength\<close>

text \<open>
  Claim C2 at a filter file whose wavelengths increase down the file, as tabulated filter
  curves usually do: its frequencies decrease, \<^verbatim>\<open>np.interp\<close> is handed a decreasing table,
  and the resampled response is the last tabulated value at every model frequency above
  the lowest filter frequency and the first tabulated value elsewhere. At the three
  frequencies of the example model, all inside the filter's range, the code resamples to
  1/4 each; piecewise-linear interpolation gives 13/50, 8/25 and 11/25. Outside the range
  the code returns the value of the far edge, not of the near one.
\<close>

theorem resampling_on_wavelength_ordered_filter:
  "load_model example_model False
     = Value ([299792458000000, 599584916000000, 1199169832000000],
              [3631 / 10 ^ 23, 3631 / 10 ^ 23, 3631 / 10 ^ 23])
   \<and> load_filter example_filter False
     = Value ([1498962290000000, 749481145000000 / 3], [1 / 2, 1 / 4])
   \<and> interp [299792458000000, 599584916000000, 1199169832000000]
             [1498962290000000, 749481145000000 / 3] [1 / 2, 1 / 4]
     = Value [1 / 4, 1 / 4, 1 / 4]
   \<and> resample_spec [299792458000000, 599584916000000, 1199169832000000]
             [1498962290000000, 749481145000000 / 3] [1 / 2, 1 / 4]
     = [13 / 50, 8 / 25, 11 / 25]
   \<and> interp [0, 10 ^ 16] [1498962290000000, 749481145000000 / 3] [1 / 2, 1 / 4]
     = Value [1 / 2, 1 / 4]
   \<and> resample_spec [0, 10 ^ 16] [1498962290000000, 749481145000000 / 3] [1 / 2, 1 / 4]
     = [1 / 4, 1 / 2]"
proof -
  have d: "interp x [1498962290000000, 749481145000000 / 3] [1 / 2, 1 / 4]
      = Value (map (\<lambda>v. if v > 749481145000000 / 3 then 1 / 4 else 1 / 2) x)" for x
    using interp_descending [of "[1498962290000000, 749481145000000 / 3]" "[1 / 2, 1 / 4]" x]
    by simp
  show ?thesis
    by (simp add: example_load_model example_load_filter d resample_spec_def)
qed

subsection \<open>Errors\<close>











subsection \<open>Valid files give finite intermediate results\<close>

lemma basic_simps_terms_defined:
  assumes "sorted_wrt (<) xs"
  shows "\<exists>ts. basic_simps_terms ys xs = map Value ts"
  using assms
proof (induction ys xs rule: basic_simps_terms.induct)
  case (1 y0 y1 y2 ys x0 x1 x2 xs)
  have h: "x1 - x0 \<noteq> 0" "x2 - x1 \<noteq> 0"
    using "1.prems" by auto
  then have "\<exists>v. simps_panel y0 y1 y2 (x1 - x0) (x2 - x1) = Value v"
    unfolding simps_panel_def Let_def by (simp only: de_Morgan_disj if_False simp_thms) blast
  then obtain v where v: "simps_panel y0 y1 y2 (x1 - x0) (x2 - x1) = Value v" ..
  obtain ts where "basic_simps_terms (y2 # ys) (x2 # xs) = map Value ts"
    using "1.IH" "1.prems" by auto
  then have "basic_simps_terms (y0 # y1 # y2 # ys) (x0 # x1 # x2 # xs) = map Value (v # ts)"
    using v by simp
  then show ?case by (rule exI)
qed (auto intro: exI [of _ "[]"])

lemma basic_simps_defined:
  assumes "sorted_wrt (<) xs"
  shows "\<exists>v. basic_simps ys xs = Value v"
proof -
  obtain ts where "basic_simps_terms ys xs = map Value ts"
    using basic_simps_terms_defined [OF assms] by blast
  then have "collect (basic_simps_terms ys xs) = Value ts"
    by (simp only: collect_eq_Value_iff)
  then show ?thesis by (simp add: basic_simps_def)
qed

lemma simps_defined:
  assumes "sorted_wrt (<) xs" and "length ys = length xs" and "xs \<noteq> []"
  shows "\<exists>v. simps ys xs = Value v"
proof -
  obtain v1 where v1: "basic_simps ys xs = Value v1"
    using basic_simps_defined [OF assms(1)] by blast
  have "sorted_wrt (<) (tl xs)"
    using assms(1) by (cases xs) auto
  then obtain v2 where v2: "basic_simps (tl ys) (tl xs) = Value v2"
    using basic_simps_defined by blast
  show ?thesis
    using assms(2,3) by (simp add: simps_def Let_def v1 v2)
qed

lemma interp_at_defined:
  assumes "distinct xp" and "- 1 \<le> j" and "j \<le> int (length xp)"
  shows "\<exists>v. interp_at xp fp j x = Value v"
proof (cases "j = - 1 \<or> j = int (length xp) \<or> j = int (length xp) - 1")
  case True
  then show ?thesis by (auto simp: interp_at_def Let_def)
next
  case False
  then have n: "nat j < length xp" "nat j + 1 < length xp"
    using assms(2,3) by auto
  then have "xp ! (nat j + 1) \<noteq> xp ! nat j"
    using assms(1) by (simp add: nth_eq_iff_index_eq)
  then show ?thesis
    using False by (simp add: interp_at_def Let_def fdiv_def)
qed

lemma interp_loop_defined:
  assumes "distinct xp" and "xp \<noteq> []"
  shows "\<exists>vs. interp_loop xp fp j xs = map Value vs"
proof (induction xs arbitrary: j)
  case Nil
  show ?case by (auto intro: exI [of _ "[]"])
next
  case (Cons x xs)
  define j' where "j' = binary_search_with_guess x xp j"
  obtain v where v: "interp_at xp fp j' x = Value v"
    using binary_search_with_guess_bounds [OF assms(2), of x j] interp_at_defined [OF assms(1)]
    unfolding j'_def by blast
  obtain vs where vs: "interp_loop xp fp j' xs = map Value vs"
    using Cons.IH by blast
  have "interp_loop xp fp j (x # xs) = map Value (v # vs)"
    using v vs by (simp add: Let_def j'_def)
  then show ?case by (rule exI)
qed

lemma interp_defined:
  assumes "distinct xp" and "xp \<noteq> []" and "length fp = length xp"
  shows "\<exists>R. interp x xp fp = Value R"
proof (cases "length xp = 1")
  case True
  then show ?thesis using assms(3) by (simp add: interp_def)
next
  case False
  obtain vs where "interp_loop xp fp 0 x = map Value vs"
    using interp_loop_defined [OF assms(1,2)] by blast
  then have "collect (interp_loop xp fp 0 x) = Value vs"
    by (simp only: collect_eq_Value_iff)
  then show ?thesis
    using False assms(2,3) by (simp add: interp_def)
qed

lemma model_frequencies_distinct:
  assumes "distinct lam" and "0 \<notin> set lam"
  shows "distinct (map (\<lambda>w. c_m_s / (w / 10 ^ 6)) lam)"
proof -
  have "inj_on (\<lambda>w. c_m_s / (w / 10 ^ 6)) (set lam)"
  proof (rule inj_onI)
    fix v w
    assume "v \<in> set lam" "w \<in> set lam" and "c_m_s / (v / 10 ^ 6) = c_m_s / (w / 10 ^ 6)"
    then show "v = w"
      using assms(2) by (auto simp: c_m_s_def field_simps)
  qed
  then show ?thesis
    using assms(1) by (simp add: distinct_map)
qed

subsection \<open>The magnitude of valid files\<close>

lemma load_model_valid:
  assumes "\<not> ragged t"
    and "map_of t ''LAMBDA(mic)'' = Some lam"
    and "map_of t ''FDET(milliJ)'' = Some fdet"
    and "0 \<notin> set lam"
  shows "load_model (Tabular t) False
       = Value (map (\<lambda>w. c_m_s / (w / 10 ^ 6)) lam, map (\<lambda>f. f / 10 ^ 26) fdet)"
  using load_model_Tabular [OF assms, of False] by simp

text \<open>
  Claim C1. For a model table with both columns and distinct non-zero wavelengths, and a
  filter table of distinct non-zero wavelengths, the filter response resamples to some
  \<open>R\<close> on the model frequencies, both integrals are finite numbers, and \<^verbatim>\<open>get_abs_mag\<close>
  returns \<open>-2.5 log\<^sub>10 (num / (den \<times> 3631 Jy))\<close>: \<open>num\<close> is Simpson's rule applied to flux
  density times \<open>R\<close>, and \<open>den\<close> is Simpson's rule applied to \<open>R\<close>, both over the model
  frequencies in ascending order with the samples re-ordered along. The result leaves
  the finite numbers exactly when \<open>den\<close> is zero or the ratio is not positive.
\<close>

theorem get_abs_mag_formula:
  fixes lam fdet wl resp :: "real list"
  defines "nu \<equiv> map (\<lambda>w. c_m_s / (w / 10 ^ 6)) lam"
  defines "fnu \<equiv> map (\<lambda>f. f / 10 ^ 26) fdet"
  defines "filter_nu \<equiv> map (\<lambda>w. c_m_s / (w * (angstrom / metre))) wl"
  assumes "\<not> ragged t"
    and "map_of t ''LAMBDA(mic)'' = Some lam"
    and "map_of t ''FDET(milliJ)'' = Some fdet"
    and "lam \<noteq> []" and "0 \<notin> set lam" and "distinct lam"
    and "length wl = length resp"
    and "wl \<noteq> []" and "0 \<notin> set wl" and "distinct wl"
  shows "\<exists>R num den.
      interp nu filter_nu resp = Value R
    \<and> simps (map snd (sort_key fst (zip nu (map2 (*) fnu R)))) (sort nu) = Value num
    \<and> simps (map snd (sort_key fst (zip nu R))) (sort nu) = Value den
    \<and> get_abs_mag (Tabular t) (Tabular [(a, wl), (b, resp)]) =
        (if den = 0 \<or> num / (den * (3631 * Jansky)) \<le> 0 then NonFinite
         else Value (- 2.5 * log 10 (num / (den * (3631 * Jansky)))))"
proof -
  have lm: "load_model (Tabular t) False = Value (nu, fnu)"
    unfolding nu_def fnu_def by (rule load_model_valid) fact+
  have lf: "load_filter (Tabular [(a, wl), (b, resp)]) False = Value (filter_nu, resp)"
    using assms(10,12) by (simp add: load_filter_Tabular2 filter_nu_def)
  have dfx: "distinct filter_nu" "filter_nu \<noteq> []" "length resp = length filter_nu"
    using spectral_frequencies_distinct [of wl] assms(10,11,12,13) by (simp_all add: filter_nu_def)
  obtain R where R: "interp nu filter_nu resp = Value R"
    using interp_defined [OF dfx] by blast
  have lenR: "length R = length nu"
    using R by (rule length_interp)
  have lenF: "length fnu = length nu"
    using lm by (rule load_model_lengths)
  have dnu: "distinct nu"
    unfolding nu_def using assms(9,8) by (rule model_frequencies_distinct)
  have grid: "sorted_wrt (<) (sort nu)" "sort nu \<noteq> []"
    using dnu assms(7) by (auto simp: strict_sorted_iff nu_def dest: arg_cong [where f = length])
  obtain num where num: "simps (map snd (sort_key fst (zip nu (map2 (*) fnu R)))) (sort nu) = Value num"
    using simps_defined [OF grid(1) _ grid(2), of "map snd (sort_key fst (zip nu (map2 (*) fnu R)))"]
      lenR lenF by auto
  obtain den where den: "simps (map snd (sort_key fst (zip nu R))) (sort nu) = Value den"
    using simps_defined [OF grid(1) _ grid(2), of "map snd (sort_key fst (zip nu R))"] lenR by auto
  from R num den get_abs_mag_formula_arrays [OF lm lf R num den] show ?thesis
    by blast
qed

theorem get_abs_mag_formula_witness:
  "get_abs_mag example_model example_filter
     = Value (- 2.5 * log 10 (3631 / (4 * 10 ^ 23) * 899377374000000 / (224844343500000 * (3631 * Jansky))))
   \<and> 3631 / (4 * 10 ^ 23) * 899377374000000 / (224844343500000 * (3631 * Jansky)) = 1"
proof -
  have nu: "map (\<lambda>w. c_m_s / (w / 10 ^ 6)) [1, 1 / 2, 1 / 4]
      = [299792458000000, 599584916000000, 1199169832000000]"
    and fnu: "map (\<lambda>f. f / 10 ^ 26) [3631000, 3631000, 3631000 :: real]
      = [3631 / 10 ^ 23, 3631 / 10 ^ 23, 3631 / 10 ^ 23]"
    and fx: "map (\<lambda>w. c_m_s / (w * (angstrom / metre))) [2000, 12000]
      = [1498962290000000, 749481145000000 / 3]"
    by (simp_all add: c_m_s_def angstrom_def metre_def)
  obtain R num den where
    R: "interp [299792458000000, 599584916000000, 1199169832000000]
               [1498962290000000, 749481145000000 / 3] [1 / 2, 1 / 4] = Value R"
    and num: "simps (map snd (sort_key fst (zip [299792458000000, 599584916000000, 1199169832000000 :: real]
                 (map2 (*) [3631 / 10 ^ 23, 3631 / 10 ^ 23, 3631 / 10 ^ 23] R))))
               (sort [299792458000000, 599584916000000, 1199169832000000]) = Value num"
    and den: "simps (map snd (sort_key fst (zip [299792458000000, 599584916000000, 1199169832000000 :: real] R)))
               (sort [299792458000000, 599584916000000, 1199169832000000]) = Value den"
    and mag: "get_abs_mag example_model example_filter =
          (if den = 0 \<or> num / (den * (3631 * Jansky)) \<le> 0 then NonFinite
           else Value (- 2.5 * log 10 (num / (den * (3631 * Jansky)))))"
    using get_abs_mag_formula
      [of "[(''LAMBDA(mic)'', [1, 1 / 2, 1 / 4]), (''FDET(milliJ)'', [3631000, 3631000, 3631000])]"
          "[1, 1 / 2, 1 / 4]" "[3631000, 3631000, 3631000]" "[2000, 12000]" "[1 / 2, 1 / 4]"
          "''col1''" "''col2''"]
    unfolding nu fnu fx example_model_def [symmetric] example_filter_def [symmetric]
    by auto
  have "R = [1 / 4, 1 / 4, 1 / 4]"
    using R example_interp by simp
  then have "num = 3631 / (4 * 10 ^ 23) * 899377374000000" and "den = 224844343500000"
    using num den example_numerator example_denominator by simp_all
  then show ?thesis
    using mag by (simp add: Jansky_def)
qed

text \<open>
  Claim C5. For a filter file whose response column is one constant \<open>r \<noteq> 0\<close> (at distinct
  non-zero wavelengths), and a model of at least two distinct non-zero wavelengths, the
  magnitude is \<open>-2.5 log\<^sub>10 (mean / 3631 Jy)\<close>, where \<open>mean\<close> is Simpson's rule applied
  to the flux density over the ascending frequencies, divided by the width of the
  frequency interval.
\<close>

theorem constant_response_mean_flux:
  fixes lam fdet wl :: "real list"
  defines "nu \<equiv> map (\<lambda>w. c_m_s / (w / 10 ^ 6)) lam"
  defines "fnu \<equiv> map (\<lambda>f. f / 10 ^ 26) fdet"
  assumes "\<not> ragged t"
    and "map_of t ''LAMBDA(mic)'' = Some lam"
    and "map_of t ''FDET(milliJ)'' = Some fdet"
    and "2 \<le> length lam" and "0 \<notin> set lam" and "distinct lam"
    and "wl \<noteq> []" and "0 \<notin> set wl" and "distinct wl"
    and "r \<noteq> 0"
  shows "\<exists>S.
      simps (map snd (sort_key fst (zip nu fnu))) (sort nu) = Value S
    \<and> get_abs_mag (Tabular t) (Tabular [(a, wl), (b, replicate (length wl) r)]) =
        (let mean = S / (Max (set nu) - Min (set nu))
         in if mean / (3631 * Jansky) \<le> 0 then NonFinite
            else Value (- 2.5 * log 10 (mean / (3631 * Jansky))))"
proof -
  have lm: "load_model (Tabular t) False = Value (nu, fnu)"
    unfolding nu_def fnu_def by (rule load_model_valid) fact+
  have lenF: "length fnu = length nu"
    using lm by (rule load_model_lengths)
  have dnu: "distinct nu"
    unfolding nu_def using assms(8,7) by (rule model_frequencies_distinct)
  have n2: "2 \<le> length nu"
    using assms(6) by (simp add: nu_def)
  have "nu \<noteq> []" using n2 by (cases nu) simp_all
  then have "sort nu \<noteq> []" by (metis length_0_conv length_sort)
  then have grid: "sorted_wrt (<) (sort nu)" "sort nu \<noteq> []"
    using dnu by (simp_all add: strict_sorted_iff)
  obtain S where S: "simps (map snd (sort_key fst (zip nu fnu))) (sort nu) = Value S"
    using simps_defined [OF grid(1) _ grid(2), of "map snd (sort_key fst (zip nu fnu))"] lenF
    by auto
  from S constant_response_arrays [OF lm dnu n2 assms(11,9,10,12) S, of a b] show ?thesis
    by blast
qed

theorem constant_response_mean_flux_witness:
  "get_abs_mag example_model (Tabular [(''col1'', [2000, 12000]), (''col2'', [1 / 3, 1 / 3])])
     = Value 0"
proof -
  have nu: "map (\<lambda>w. c_m_s / (w / 10 ^ 6)) [1, 1 / 2, 1 / 4]
      = [299792458000000, 599584916000000, 1199169832000000]"
    and fnu: "map (\<lambda>f. f / 10 ^ 26) [3631000, 3631000, 3631000 :: real]
      = [3631 / 10 ^ 23, 3631 / 10 ^ 23, 3631 / 10 ^ 23]"
    by (simp_all add: c_m_s_def)
  have rep: "replicate (length [2000, 12000 :: real]) (1 / 3 :: real) = [1 / 3, 1 / 3]"
    by (simp add: numeral_2_eq_2)
  have mx: "Max (set [299792458000000, 599584916000000, 1199169832000000 :: real]) = 1199169832000000"
    and mn: "Min (set [299792458000000, 599584916000000, 1199169832000000 :: real]) = 299792458000000"
    by simp_all
  obtain S where
    S: "simps (map snd (sort_key fst (zip [299792458000000, 599584916000000, 1199169832000000 :: real]
                 [3631 / 10 ^ 23, 3631 / 10 ^ 23, 3631 / 10 ^ 23])))
              (sort [299792458000000, 599584916000000, 1199169832000000]) = Value S"
    and mag: "get_abs_mag example_model (Tabular [(''col1'', [2000, 12000]), (''col2'', [1 / 3, 1 / 3])]) =
        (let mean = S / (1199169832000000 - 299792458000000)
         in if mean / (3631 * Jansky) \<le> 0 then NonFinite
            else Value (- 2.5 * log 10 (mean / (3631 * Jansky))))"
    using constant_response_mean_flux
      [of "[(''LAMBDA(mic)'', [1, 1 / 2, 1 / 4]), (''FDET(milliJ)'', [3631000, 3631000, 3631000])]"
          "[1, 1 / 2, 1 / 4]" "[3631000, 3631000, 3631000]" "[2000, 12000]" "1 / 3"
          "''col1''" "''col2''"]
    unfolding nu fnu rep mx mn example_model_def [symmetric]
    by auto
  have "S = 3631 / 10 ^ 23 * 899377374000000"
    using S example_flux_integral by simp
  then have "S / (1199169832000000 - 299792458000000) / (3631 * Jansky) = 1"
    by (simp add: Jansky_def)
  then show ?thesis
    using mag by (simp add: Let_def)
qed

end
